theory Spec2Isabelle
  imports Complex_Main "HOL-Library.Code_Target_Nat"
begin

section \<open>Numbers\<close>

text \<open>
  The script computes with JavaScript numbers. The allocation loops and the totals are
  modelled with exact rationals: every amount the loops keep is re-rounded to whole cents
  after each subtraction. \<open>NaN\<close> is modelled where it can arise: a failed \<open>parseFloat\<close>
  is \<open>None\<close>, a missing object key is \<open>None\<close>.
\<close>

definition Math_round :: "rat \<Rightarrow> int" where
  \<comment> \<open>\<open>Math.round\<close>: the nearest integer, a tie going up.\<close>
  "Math_round x = \<lfloor>x + 1 / 2\<rfloor>"

definition Math_floor :: "rat \<Rightarrow> int" where
  "Math_floor x = \<lfloor>x\<rfloor>"

definition round_cents :: "rat \<Rightarrow> rat" where
  \<comment> \<open>\<open>Math.round(x * 100) / 100\<close>\<close>
  "round_cents x = of_int (Math_round (x * 100)) / 100"

definition or0 :: "int option \<Rightarrow> int" where
  \<comment> \<open>\<open>obj[key] || 0\<close> on an object of integer counts\<close>
  "or0 v = (case v of None \<Rightarrow> 0 | Some n \<Rightarrow> n)"

text \<open>
  Where the outcome turns on binary rounding (\<open>validateInput\<close> and \<open>toggleInputMode\<close>
  compare and round numbers that are not whole cents), the numbers are IEEE doubles:
  \<open>double x\<close> is the double nearest to the rational \<open>x\<close>, with a significand of 53 bits
  and a tie going to the even significand. The exponent range is not modelled (no
  overflow, no subnormal numbers). A product, quotient or difference of the script is the
  \<open>double\<close> of the exact result; \<open>%\<close>, \<open>Math.round\<close>, \<open>Math.floor\<close> and \<open>toFixed\<close> are
  exact on the double they are given.
\<close>

definition rne :: "rat \<Rightarrow> int" where
  \<comment> \<open>the nearest integer, a tie going to the even one\<close>
  "rne y =
     (let f = \<lfloor>y\<rfloor>; r = y - of_int f
      in if r < 1 / 2 then f else if 1 / 2 < r then f + 1 else if even f then f else f + 1)"

text \<open>The binary exponent of a positive number: \<open>2 ^ e \<le> x < 2 ^ (e + 1)\<close>.\<close>

function expo_ge1 :: "rat \<Rightarrow> int" where
  "expo_ge1 x = (if x < 2 then 0 else expo_ge1 (x / 2) + 1)"
  by pat_completeness auto
termination
proof (relation "measure (\<lambda>x. nat \<lfloor>x\<rfloor>)")
  show "wf (measure (\<lambda>x::rat. nat \<lfloor>x\<rfloor>))" by simp
next
  fix x :: rat
  assume "\<not> x < 2"
  then have "x / 2 \<le> x - 1" by simp
  then have "\<lfloor>x / 2\<rfloor> \<le> \<lfloor>x - 1\<rfloor>" by (rule floor_mono)
  moreover have "0 < \<lfloor>x\<rfloor>" using \<open>\<not> x < 2\<close> by simp
  ultimately show "(x / 2, x) \<in> measure (\<lambda>x. nat \<lfloor>x\<rfloor>)" by simp
qed

function expo_lt1 :: "rat \<Rightarrow> int" where
  "expo_lt1 x = (if x \<le> 0 \<or> 1 \<le> x then 0 else expo_lt1 (x * 2) - 1)"
  by pat_completeness auto
termination
proof (relation "measure (\<lambda>x. nat \<lceil>1 / x\<rceil>)")
  show "wf (measure (\<lambda>x::rat. nat \<lceil>1 / x\<rceil>))" by simp
next
  fix x :: rat
  assume "\<not> (x \<le> 0 \<or> 1 \<le> x)"
  then have x: "0 < x" "x < 1" by simp_all
  then have a: "1 < 1 / x" by simp
  then have c: "2 \<le> \<lceil>1 / x\<rceil>" by linarith
  have "1 / (x * 2) = (1 / x) / 2" by simp
  also have "\<dots> \<le> of_int \<lceil>1 / x\<rceil> / 2" by (simp add: divide_right_mono)
  also have "\<dots> \<le> of_int (\<lceil>1 / x\<rceil> - 1)" using c by simp
  finally have "1 / (x * 2) \<le> of_int (\<lceil>1 / x\<rceil> - 1)" .
  then have "\<lceil>1 / (x * 2)\<rceil> \<le> \<lceil>1 / x\<rceil> - 1" by (rule ceiling_le)
  then show "(x * 2, x) \<in> measure (\<lambda>x. nat \<lceil>1 / x\<rceil>)" using c x by simp
qed

declare expo_ge1.simps [simp del] expo_lt1.simps [simp del]

definition expo :: "rat \<Rightarrow> int" where
  "expo x = (if 1 \<le> x then expo_ge1 x else expo_lt1 x)"

definition double :: "rat \<Rightarrow> rat" where
  "double x =
     (if x = 0 then 0
      else (let ulp = 2 powi (expo \<bar>x\<bar> - 52)
            in sgn x * of_int (rne (\<bar>x\<bar> / ulp)) * ulp))"


section \<open>The greedy breakdown of \<open>calculateFakelos\<close>\<close>

definition billDenominations :: "rat list" where
  "billDenominations = [100, 50, 20, 10, 5]"

definition coinDenominations :: "rat list" where
  "coinDenominations = [2, 1, 1 / 2, 1 / 5, 1 / 10, 1 / 20]"

text \<open>The local variables of \<open>calculateFakelos\<close> that the two loops update.\<close>

record fakelos =
  usedBills :: "rat \<rightharpoonup> int"
  usedCoins :: "rat \<rightharpoonup> int"
  remaining :: rat
  billsTotal :: rat
  coinsTotal :: rat

definition fakelos_init :: "rat \<Rightarrow> fakelos" where
  "fakelos_init cashTotal =
     \<lparr>usedBills = Map.empty, usedCoins = Map.empty,
      remaining = round_cents cashTotal, billsTotal = 0, coinsTotal = 0\<rparr>"

text \<open>
  The body of the bills loop after its \<open>break\<close> test. A key missing from \<open>billCounts\<close>
  would make \<open>Math.min(needed, undefined)\<close> \<open>NaN\<close>, and \<open>NaN > 0\<close> is false.
\<close>

definition bill_body :: "(rat \<rightharpoonup> int) \<Rightarrow> rat \<Rightarrow> fakelos \<Rightarrow> fakelos" where
  "bill_body billCounts denom s =
     (let needed = Math_floor (remaining s / denom) in
      case billCounts denom of
        None \<Rightarrow> s
      | Some available \<Rightarrow>
          (let used = min needed available in
           if used > 0 then
             (let amount = of_int used * denom in
              s\<lparr>usedBills := (usedBills s)(denom \<mapsto> used),
                remaining := round_cents (remaining s - amount),
                billsTotal := billsTotal s + amount\<rparr>)
           else s))"

fun bills_loop :: "(rat \<rightharpoonup> int) \<Rightarrow> rat list \<Rightarrow> fakelos \<Rightarrow> fakelos" where
  "bills_loop billCounts [] s = s"
| "bills_loop billCounts (denom # rest) s =
     (if remaining s \<le> 0 then s
      else bills_loop billCounts rest (bill_body billCounts denom s))"

definition coin_body :: "(rat \<rightharpoonup> int) \<Rightarrow> rat \<Rightarrow> fakelos \<Rightarrow> fakelos" where
  "coin_body coinCounts denom s =
     (let needed = Math_floor ((remaining s + 1 / 1000) / denom) in
      case coinCounts denom of
        None \<Rightarrow> s
      | Some available \<Rightarrow>
          (let used = min needed available in
           if used > 0 then
             (let amount = of_int used * denom in
              s\<lparr>usedCoins := (usedCoins s)(denom \<mapsto> used),
                remaining := round_cents (remaining s - amount),
                coinsTotal := coinsTotal s + amount\<rparr>)
           else s))"

fun coins_loop :: "(rat \<rightharpoonup> int) \<Rightarrow> rat list \<Rightarrow> fakelos \<Rightarrow> fakelos" where
  "coins_loop coinCounts [] s = s"
| "coins_loop coinCounts (denom # rest) s =
     (if remaining s \<le> 0 then s
      else coins_loop coinCounts rest (coin_body coinCounts denom s))"

definition fakelos_alloc :: "rat \<Rightarrow> (rat \<rightharpoonup> int) \<Rightarrow> (rat \<rightharpoonup> int) \<Rightarrow> fakelos" where
  \<comment> \<open>lines 579 to 620: \<open>cashTotal\<close> is the number read back from the displayed cash total\<close>
  "fakelos_alloc cashTotal billCounts coinCounts =
     coins_loop coinCounts coinDenominations
       (bills_loop billCounts billDenominations (fakelos_init cashTotal))"

definition left :: "(rat \<rightharpoonup> int) \<Rightarrow> (rat \<rightharpoonup> int) \<Rightarrow> rat \<Rightarrow> int" where
  \<comment> \<open>lines 666 and 671: \<open>Math.max(0, (counts[denom] || 0) - (used[denom] || 0))\<close>\<close>
  "left counts used denom = max 0 (or0 (counts denom) - or0 (used denom))"

definition remainingUncovered :: "fakelos \<Rightarrow> rat" where
  \<comment> \<open>the amount the warning of line 686 reports as missing; 0 when there is no warning\<close>
  "remainingUncovered s = (if remaining s > 1 / 1000 then remaining s else 0)"

text \<open>What \<open>calculateFakelos\<close> renders: the message alone, or the two sections.\<close>

record breakdown =
  put_bills :: "(rat \<times> int) list"
  put_coins :: "(rat \<times> int) list"
  put_total :: "rat option"
  keep_bills :: "(rat \<times> int) list"
  keep_coins :: "(rat \<times> int) list"
  keep_total :: rat
  nothing_available :: bool
  missing :: "rat option"

datatype fakelos_view = NoCash | Sections breakdown

definition put_rows :: "rat list \<Rightarrow> (rat \<rightharpoonup> int) \<Rightarrow> (rat \<times> int) list" where
  \<comment> \<open>a row for each denomination with \<open>used[denom] && used[denom] > 0\<close>\<close>
  "put_rows denoms used =
     concat (map (\<lambda>denom. case used denom of
                             None \<Rightarrow> []
                           | Some n \<Rightarrow> if n \<noteq> 0 \<and> n > 0 then [(denom, n)] else []) denoms)"

definition keep_rows :: "rat list \<Rightarrow> (rat \<rightharpoonup> int) \<Rightarrow> (rat \<rightharpoonup> int) \<Rightarrow> (rat \<times> int) list" where
  "keep_rows denoms counts used = map (\<lambda>denom. (denom, left counts used denom)) denoms"

definition rows_total :: "(rat \<times> int) list \<Rightarrow> rat" where
  "rows_total rows = foldl (\<lambda>total (denom, n). total + of_int n * denom) 0 rows"

definition calculateFakelos :: "rat \<Rightarrow> (rat \<rightharpoonup> int) \<Rightarrow> (rat \<rightharpoonup> int) \<Rightarrow> fakelos_view" where
  "calculateFakelos cashTotal billCounts coinCounts =
     (let s = fakelos_alloc cashTotal billCounts coinCounts;
          grandTotal = billsTotal s + coinsTotal s
      in if cashTotal \<le> 0 then NoCash
         else
           (let hasBills = (dom (usedBills s) \<noteq> {});
                hasCoins = (dom (usedCoins s) \<noteq> {});
                kb = keep_rows billDenominations billCounts (usedBills s);
                kc = keep_rows coinDenominations coinCounts (usedCoins s)
            in Sections
                 \<lparr>put_bills = (if hasBills \<or> hasCoins
                               then put_rows billDenominations (usedBills s) else []),
                  put_coins = (if hasBills \<or> hasCoins
                               then put_rows coinDenominations (usedCoins s) else []),
                  put_total = (if hasBills \<or> hasCoins then Some grandTotal else None),
                  keep_bills = kb,
                  keep_coins = kc,
                  keep_total = rows_total kb + rows_total kc,
                  nothing_available = (\<not> hasBills \<and> \<not> hasCoins),
                  missing = (if remaining s > 1 / 1000 then Some (remaining s) else None)\<rparr>))"


section \<open>The same loops in \<open>showStelno\<close>\<close>

record stelno =
  s_usedBills :: "rat \<rightharpoonup> int"
  s_usedCoins :: "rat \<rightharpoonup> int"
  s_remaining :: rat

definition billDenoms :: "rat list" where
  "billDenoms = [100, 50, 20, 10, 5]"

definition coinDenoms :: "rat list" where
  "coinDenoms = [2, 1, 1 / 2, 1 / 5, 1 / 10, 1 / 20]"

definition stelno_bill_body :: "(rat \<rightharpoonup> int) \<Rightarrow> rat \<Rightarrow> stelno \<Rightarrow> stelno" where
  "stelno_bill_body billCounts denom s =
     (let needed = Math_floor (s_remaining s / denom);
          used = min needed (or0 (billCounts denom))
      in if used > 0 then
           s\<lparr>s_usedBills := (s_usedBills s)(denom \<mapsto> used),
             s_remaining := round_cents (s_remaining s - of_int used * denom)\<rparr>
         else s)"

fun stelno_bills_loop :: "(rat \<rightharpoonup> int) \<Rightarrow> rat list \<Rightarrow> stelno \<Rightarrow> stelno" where
  "stelno_bills_loop billCounts [] s = s"
| "stelno_bills_loop billCounts (denom # rest) s =
     (if s_remaining s \<le> 0 then s
      else stelno_bills_loop billCounts rest (stelno_bill_body billCounts denom s))"

definition stelno_coin_body :: "(rat \<rightharpoonup> int) \<Rightarrow> rat \<Rightarrow> stelno \<Rightarrow> stelno" where
  "stelno_coin_body coinCounts denom s =
     (let needed = Math_floor ((s_remaining s + 1 / 1000) / denom);
          used = min needed (or0 (coinCounts denom))
      in if used > 0 then
           s\<lparr>s_usedCoins := (s_usedCoins s)(denom \<mapsto> used),
             s_remaining := round_cents (s_remaining s - of_int used * denom)\<rparr>
         else s)"

fun stelno_coins_loop :: "(rat \<rightharpoonup> int) \<Rightarrow> rat list \<Rightarrow> stelno \<Rightarrow> stelno" where
  "stelno_coins_loop coinCounts [] s = s"
| "stelno_coins_loop coinCounts (denom # rest) s =
     (if s_remaining s \<le> 0 then s
      else stelno_coins_loop coinCounts rest (stelno_coin_body coinCounts denom s))"

definition stelno_alloc :: "rat \<Rightarrow> (rat \<rightharpoonup> int) \<Rightarrow> (rat \<rightharpoonup> int) \<Rightarrow> stelno" where
  \<comment> \<open>lines 494 to 520\<close>
  "stelno_alloc cashTotal billCounts coinCounts =
     stelno_coins_loop coinCounts coinDenoms
       (stelno_bills_loop billCounts billDenoms
          \<lparr>s_usedBills = Map.empty, s_usedCoins = Map.empty,
           s_remaining = round_cents cashTotal\<rparr>)"

definition stelno_left :: "(rat \<rightharpoonup> int) \<Rightarrow> (rat \<rightharpoonup> int) \<Rightarrow> rat \<Rightarrow> int" where
  \<comment> \<open>lines 532 and 539\<close>
  "stelno_left counts used denom = max 0 (or0 (counts denom) - or0 (used denom))"

definition to_stelno :: "fakelos \<Rightarrow> stelno" where
  \<comment> \<open>the variables the two functions share\<close>
  "to_stelno s =
     \<lparr>s_usedBills = usedBills s, s_usedCoins = usedCoins s, s_remaining = remaining s\<rparr>"

text \<open>The value of the used pieces, summed over a list of denominations.\<close>

definition used_value :: "rat list \<Rightarrow> (rat \<rightharpoonup> int) \<Rightarrow> rat" where
  "used_value denoms used = (\<Sum>d\<leftarrow>denoms. of_int (or0 (used d)) * d)"

definition is_cents :: "rat \<Rightarrow> bool" where
  \<comment> \<open>a whole number of cents\<close>
  "is_cents x = (of_int \<lfloor>x * 100\<rfloor> = x * 100)"


section \<open>Numbers in text fields\<close>

text \<open>
  Every input keeps its value as a string. \<open>handleCommaInput\<close> leaves only digits, dots
  and minus signs in what is typed, and the script itself writes back decimal numerals, so
  \<open>parseFloat\<close> is modelled on that alphabet: an optional sign, digits, an optional dot
  with digits, the longest such prefix being read and the rest ignored; \<open>None\<close> is
  \<open>NaN\<close>. Leading blanks, exponents and \<open>Infinity\<close> are not modelled.
\<close>

definition is_digit :: "char \<Rightarrow> bool" where
  "is_digit c = (c \<in> set ''0123456789'')"

definition digit_val :: "char \<Rightarrow> nat" where
  \<comment> \<open>the position of a digit among the ten digits\<close>
  "digit_val c = length (takeWhile (\<lambda>d. d \<noteq> c) ''0123456789'')"

definition digit_char :: "nat \<Rightarrow> char" where
  "digit_char n = ''0123456789'' ! (n mod 10)"

definition digits_value :: "string \<Rightarrow> nat" where
  "digits_value ds = foldl (\<lambda>n c. 10 * n + digit_val c) 0 ds"

definition parse_unsigned :: "string \<Rightarrow> rat option" where
  "parse_unsigned s =
     (let ip = takeWhile is_digit s;
          rest = dropWhile is_digit s;
          fp = (case rest of
                  [] \<Rightarrow> []
                | c # t \<Rightarrow> (if c = CHR ''.'' then takeWhile is_digit t else []))
      in if ip = [] \<and> fp = [] then None
         else Some (of_nat (digits_value ip) + of_nat (digits_value fp) / 10 ^ length fp))"

definition parseFloat :: "string \<Rightarrow> rat option" where
  "parseFloat s =
     (case s of
        [] \<Rightarrow> None
      | c # t \<Rightarrow>
          (if c = CHR ''-'' then map_option uminus (parse_unsigned t)
           else if c = CHR ''+'' then parse_unsigned t
           else parse_unsigned s))"

definition parseFloat64 :: "string \<Rightarrow> rat option" where
  \<comment> \<open>the number JavaScript gets: the double nearest to the numeral read\<close>
  "parseFloat64 s = map_option double (parseFloat s)"

definition num :: "string \<Rightarrow> rat" where
  \<comment> \<open>\<open>parseFloat(v) || 0\<close>\<close>
  "num v = (case parseFloat v of None \<Rightarrow> 0 | Some x \<Rightarrow> x)"

fun string_of_nat :: "nat \<Rightarrow> string" where
  "string_of_nat n =
     (if n < 10 then [digit_char n] else string_of_nat (n div 10) @ [digit_char (n mod 10)])"

declare string_of_nat.simps [simp del]

text \<open>
  \<open>x.toFixed(2)\<close>: the sign, then the nearest number of hundredths of the absolute value,
  a tie going up, written with two decimals.
\<close>

definition toFixed2 :: "rat \<Rightarrow> string" where
  "toFixed2 x =
     (let n = nat \<lfloor>\<bar>x\<bar> * 100 + 1 / 2\<rfloor>
      in (if x < 0 then ''-'' else '''')
         @ string_of_nat (n div 100) @ ''.''
         @ [digit_char (n mod 100 div 10), digit_char (n mod 10)])"

text \<open>
  The string JavaScript assigns to \<open>input.value\<close> for the numbers \<open>toggleInputMode\<close>
  writes: a rounded count, or the double read back from \<open>toFixed(2)\<close>, which is the double
  nearest to a number of whole cents. JavaScript writes the shortest decimal numeral that
  reads back as the same double: for an integer its digits, for the double of a number of
  cents the numeral of the nearest hundredth without trailing zeros. Exponent notation
  (from \<open>10 ^ 21\<close> on) and the shortening of numerals of more than 17 digits are not
  modelled.
\<close>

definition string_of_number :: "rat \<Rightarrow> string" where
  "string_of_number y =
     (let n = nat \<lfloor>\<bar>y\<bar> * 100 + 1 / 2\<rfloor>;
          frac = n mod 100
      in (if y < 0 \<and> n \<noteq> 0 then ''-'' else '''')
         @ string_of_nat (n div 100)
         @ (if frac = 0 then ''''
            else if frac mod 10 = 0 then ''.'' @ [digit_char (frac div 10)]
            else ''.'' @ [digit_char (frac div 10), digit_char (frac mod 10)]))"


section \<open>Fields and the page state\<close>

definition denominations_bills :: "string list" where
  "denominations_bills = [''bill-100'', ''bill-50'', ''bill-20'', ''bill-10'', ''bill-5'']"

definition denominations_coins :: "string list" where
  "denominations_coins =
     [''coin-2'', ''coin-1'', ''coin-0-5'', ''coin-0-2'', ''coin-0-1'', ''coin-0-05'']"

definition denominations_other :: "string list" where
  "denominations_other = [''kermata'', ''wolt'', ''efood'', ''mypos'', ''eurobank'']"

definition denominationValues :: "string \<rightharpoonup> rat" where
  "denominationValues =
     map_of [(''bill-100'', 100), (''bill-50'', 50), (''bill-20'', 20), (''bill-10'', 10),
             (''bill-5'', 5), (''coin-2'', 2), (''coin-1'', 1), (''coin-0-5'', 1 / 2),
             (''coin-0-2'', 1 / 5), (''coin-0-1'', 1 / 10), (''coin-0-05'', 1 / 20)]"

definition denominationFields :: "string list" where
  "denominationFields = denominations_bills @ denominations_coins"

text \<open>
  The globals of the script. \<open>cachedInputs\<close> gives the value of the input cached under
  each fixed id (\<open>init\<close> caches all of them). The exoda inputs are created and deleted at
  run time and every access tests for them, so they are partial maps, the key
  \<open>exoda-i\<close> being the index \<open>i\<close> and \<open>exoda-desc-i\<close> likewise (the description inputs
  exist in the later variant of the script only).
\<close>

record state =
  isCountMode :: bool
  currentExodaCount :: nat
  cachedInputs :: "string \<Rightarrow> string"
  exodaInputs :: "nat \<rightharpoonup> string"
  exodaDescInputs :: "nat \<rightharpoonup> string"

definition empty_state :: state where
  \<comment> \<open>nothing entered, amount mode, one exoda entry\<close>
  "empty_state =
     \<lparr>isCountMode = False, currentExodaCount = 1, cachedInputs = (\<lambda>fid. []),
      exodaInputs = [1 \<mapsto> []], exodaDescInputs = [1 \<mapsto> []]\<rparr>"

definition three_entries :: state where
  \<comment> \<open>three exoda entries, filled in\<close>
  "three_entries =
     \<lparr>isCountMode = False, currentExodaCount = 3, cachedInputs = (\<lambda>fid. []),
      exodaInputs = [1 \<mapsto> ''10'', 2 \<mapsto> ''20'', 3 \<mapsto> ''30''],
      exodaDescInputs = [1 \<mapsto> [], 2 \<mapsto> [], 3 \<mapsto> []]\<rparr>"


text \<open>A form in count mode with a count of \<open>2 ^ 53 + 1\<close> in two fields.\<close>

definition large_counts :: state where
  "large_counts = empty_state\<lparr>isCountMode := True,
     cachedInputs := (cachedInputs empty_state)
       (''bill-100'' := ''9007199254740993'', ''coin-1'' := ''9007199254740993'')\<rparr>"


section \<open>\<open>toggleInputMode\<close>\<close>

text \<open>
  What the body of the \<open>forEach\<close> leaves in one denomination input: the value is kept when
  it is empty, not a number or zero; otherwise it becomes the rounded count, or the amount
  read back from \<open>toFixed(2)\<close>. \<open>val\<close> is the double read from the field, \<open>denom\<close> the
  double of the face value, and the quotient and the product are rounded to doubles.
\<close>

definition convertValue :: "bool \<Rightarrow> string \<Rightarrow> string \<Rightarrow> string" where
  "convertValue countMode fid v =
     (if v = [] then v
      else (case parseFloat64 v of
        None \<Rightarrow> v
      | Some val \<Rightarrow>
          (if val = 0 then v
           else (case denominationValues fid of
             None \<Rightarrow> v
           | Some d \<Rightarrow>
               (let denom = double d
                in if countMode then
                     (let count = Math_round (double (val / denom))
                      in string_of_number (of_int count))
                   else
                     (let amount = double (val * denom)
                      in (case parseFloat64 (toFixed2 amount) of
                            None \<Rightarrow> ''NaN''
                          | Some a \<Rightarrow> string_of_number a)))))))"

definition toggleInputMode :: "bool \<Rightarrow> state \<Rightarrow> state" where
  "toggleInputMode countMode st =
     (if isCountMode st = countMode then st
      else (fold (\<lambda>fid s. s\<lparr>cachedInputs :=
                              (cachedInputs s)(fid := convertValue countMode fid (cachedInputs s fid))\<rparr>)
              denominationFields st)
           \<lparr>isCountMode := countMode\<rparr>)"


section \<open>\<open>validateInput\<close>\<close>

definition js_rem :: "rat \<Rightarrow> rat \<Rightarrow> rat" where
  \<comment> \<open>\<open>a % b\<close>: the quotient is truncated towards zero, the result has the sign of \<open>a\<close>\<close>
  "js_rem a b = a - b * of_int (if a / b < 0 then \<lceil>a / b\<rceil> else \<lfloor>a / b\<rfloor>)"

definition isInteger :: "rat \<Rightarrow> bool" where
  "isInteger x = (of_int \<lfloor>x\<rfloor> = x)"

text \<open>The test of lines 354 to 356, on the doubles the script has.\<close>

definition isValidMultiple :: "rat \<Rightarrow> rat \<Rightarrow> bool" where
  "isValidMultiple value denomination =
     (let epsilon = double (1 / 1000);
          remainder = js_rem value denomination
      in remainder < epsilon \<or> double (denomination - remainder) < epsilon)"

text \<open>
  The result is whether the input carries the class \<open>invalid\<close> after the call; every path
  of the function sets or removes it.
\<close>

definition validateInput :: "bool \<Rightarrow> string \<Rightarrow> string \<Rightarrow> bool" where
  "validateInput countMode fid v =
     (let value = parseFloat64 v in
      if v = [] then False
      else (case denominationValues fid of
        Some d \<Rightarrow>
          (let denomination = double d in
           if countMode then
             (let isValid = (case value of None \<Rightarrow> False | Some x \<Rightarrow> isInteger x \<and> x \<ge> 0)
              in \<not> isValid)
           else
             (case value of
                None \<Rightarrow> False
              | Some x \<Rightarrow> \<not> isValidMultiple x denomination))
      | None \<Rightarrow> False))"


section \<open>\<open>createExodaFields\<close> and \<open>getTotalExoda\<close>\<close>

definition exoda_existing :: "(nat \<rightharpoonup> string) \<Rightarrow> nat list \<Rightarrow> (nat \<rightharpoonup> string)" where
  \<comment> \<open>the first loop: the non-empty values of the inputs that exist\<close>
  "exoda_existing inputs old =
     fold (\<lambda>i ev. case inputs i of
                     None \<Rightarrow> ev
                   | Some v \<Rightarrow> (if v \<noteq> [] then ev(i \<mapsto> v) else ev)) old Map.empty"

definition exoda_clear :: "(nat \<rightharpoonup> string) \<Rightarrow> nat list \<Rightarrow> (nat \<rightharpoonup> string)" where
  \<comment> \<open>the second loop: \<open>delete cachedInputs[...]\<close>\<close>
  "exoda_clear inputs old = fold (\<lambda>i m. m(i := None)) old inputs"

definition exoda_fill ::
  "(nat \<rightharpoonup> string) \<Rightarrow> nat list \<Rightarrow> (nat \<rightharpoonup> string) \<Rightarrow> (nat \<rightharpoonup> string)" where
  \<comment> \<open>the third loop: a new input for each index, with the saved value if there is one\<close>
  "exoda_fill existingValues new inputs =
     fold (\<lambda>i m. m(i \<mapsto> (case existingValues i of None \<Rightarrow> [] | Some v \<Rightarrow> v))) new inputs"

definition createExodaFields :: "nat \<Rightarrow> state \<Rightarrow> state" where
  "createExodaFields count st =
     (let old = [1..<Suc (currentExodaCount st)];
          existingValues = exoda_existing (exodaInputs st) old;
          existingDescs = exoda_existing (exodaDescInputs st) old;
          new = [1..<Suc count]
      in st\<lparr>currentExodaCount := count,
            exodaInputs := exoda_fill existingValues new (exoda_clear (exodaInputs st) old),
            exodaDescInputs :=
              exoda_fill existingDescs new (exoda_clear (exodaDescInputs st) old)\<rparr>)"

definition getTotalExoda :: "state \<Rightarrow> rat" where
  "getTotalExoda st =
     fold (\<lambda>i total. case exodaInputs st i of
                        None \<Rightarrow> total
                      | Some v \<Rightarrow> total + num v)
       [1..<Suc (currentExodaCount st)] 0"


section \<open>\<open>updateTotals\<close>\<close>

text \<open>The five numbers \<open>updateTotals\<close> hands to \<open>formatCurrency\<close>.\<close>

record totals =
  grandTotal :: rat
  totalExoda :: rat
  cashTotal :: rat
  cashLimTotal :: rat
  incomeLimTotal :: rat

definition fieldsTotal :: "state \<Rightarrow> rat" where
  \<comment> \<open>the \<open>forEach\<close> over all fields\<close>
  "fieldsTotal st =
     fold (\<lambda>fid total.
             (let rawValue = num (cachedInputs st fid) in
              case denominationValues fid of
                Some denom \<Rightarrow>
                  (if isCountMode st then total + rawValue * denom else total + rawValue)
              | None \<Rightarrow> total + rawValue))
       (denominations_bills @ denominations_coins @ denominations_other) 0"

definition deductions :: "string list" where
  "deductions = [''wolt'', ''efood'', ''mypos'', ''eurobank'']"

definition deductionsTotal :: "state \<Rightarrow> rat" where
  "deductionsTotal st =
     fold (\<lambda>fid total. total + num (cachedInputs st fid)) deductions (1000 + getTotalExoda st)"

definition updateTotals :: "state \<Rightarrow> totals" where
  "updateTotals st =
     (let exoda = getTotalExoda st;
          grand = fieldsTotal st + exoda;
          cash = grand - deductionsTotal st;
          myposAmount = num (cachedInputs st ''mypos'');
          eurobankAmount = num (cachedInputs st ''eurobank'')
      in \<lparr>grandTotal = grand, totalExoda = exoda, cashTotal = cash,
          cashLimTotal = cash + exoda,
          incomeLimTotal = cash + exoda + myposAmount + eurobankAmount\<rparr>)"


section \<open>The allocation as the specification words it\<close>

text \<open>
  One pass over the denominations in priority order, bills before coins, with one table of
  available counts: at a denomination \<open>d\<close> with \<open>r > 0\<close> the needed count is
  \<open>floor (r / d)\<close> for a bill and \<open>floor ((r + 0.001) / d)\<close> for a coin, the used count
  is the smaller of needed and available, and a positive used count is recorded and paid
  out of \<open>r\<close>, which is rounded to two decimals again; the pass stops once \<open>r \<le> 0\<close>.
\<close>

datatype category = Bill | Coin

definition priority :: "(category \<times> rat) list" where
  "priority =
     [(Bill, 100), (Bill, 50), (Bill, 20), (Bill, 10), (Bill, 5),
      (Coin, 2), (Coin, 1), (Coin, 1 / 2), (Coin, 1 / 5), (Coin, 1 / 10), (Coin, 1 / 20)]"

definition spec_needed :: "category \<Rightarrow> rat \<Rightarrow> rat \<Rightarrow> int" where
  "spec_needed c r d = (case c of Bill \<Rightarrow> \<lfloor>r / d\<rfloor> | Coin \<Rightarrow> \<lfloor>(r + 1 / 1000) / d\<rfloor>)"

definition spec_step ::
  "(rat \<Rightarrow> int) \<Rightarrow> category \<times> rat \<Rightarrow> (rat \<rightharpoonup> int) \<times> rat \<Rightarrow> (rat \<rightharpoonup> int) \<times> rat" where
  "spec_step available cd ur =
     (case cd of (c, d) \<Rightarrow> case ur of (used_map, r) \<Rightarrow>
        (let needed = spec_needed c r d;
             used = min needed (available d)
         in if used > 0 then (used_map(d \<mapsto> used), round_cents (r - of_int used * d))
            else (used_map, r)))"

fun spec_iterate ::
  "(rat \<Rightarrow> int) \<Rightarrow> (category \<times> rat) list \<Rightarrow> (rat \<rightharpoonup> int) \<times> rat \<Rightarrow> (rat \<rightharpoonup> int) \<times> rat" where
  "spec_iterate available [] ur = ur"
| "spec_iterate available (cd # rest) ur =
     (if snd ur > 0 then spec_iterate available rest (spec_step available cd ur) else ur)"

definition alloc_result :: "fakelos \<Rightarrow> (rat \<rightharpoonup> int) \<times> rat" where
  \<comment> \<open>the used pieces of both loops in one table, and the remaining amount\<close>
  "alloc_result s = (usedBills s ++ usedCoins s, remaining s)"


text \<open>
  The validation predicate as the specification words it: an empty input is valid; a
  denomination field is valid in count mode when the parsed value is a non-negative
  integer, and in amount mode when the parsed value modulo the face value is within 0.001
  of 0 or of the face value; any other field is valid. A value that does not parse is
  within 0.001 of nothing.
\<close>

definition within_eps :: "rat \<Rightarrow> rat \<Rightarrow> rat \<Rightarrow> bool" where
  "within_eps eps a b = (\<bar>a - b\<bar> < eps)"

definition claimed_valid :: "bool \<Rightarrow> string \<Rightarrow> string \<Rightarrow> bool" where
  "claimed_valid countMode fid v =
     (if v = [] then True
      else (case denominationValues fid of
        None \<Rightarrow> True
      | Some face \<Rightarrow>
          (case parseFloat v of
             None \<Rightarrow> False
           | Some x \<Rightarrow>
               (if countMode then isInteger x \<and> 0 \<le> x
                else within_eps (1 / 1000) (js_rem x face) 0
                     \<or> within_eps (1 / 1000) (js_rem x face) face))))"


section \<open>Evaluation helpers\<close>

lemma floor_rat_numeral_div:
  "\<lfloor>(numeral a / numeral b :: rat)\<rfloor> = numeral a div numeral b"
  using floor_divide_of_int_eq [of "numeral a" "numeral b", where ?'a = rat] by simp

lemma floor_rat_neg_numeral_div:
  "\<lfloor>(- (numeral a / numeral b) :: rat)\<rfloor> = - numeral a div numeral b"
  using floor_divide_of_int_eq [of "- numeral a" "numeral b", where ?'a = rat] by simp

lemmas alloc_eval =
  fakelos_alloc_def fakelos_init_def billDenominations_def coinDenominations_def
  bill_body_def coin_body_def round_cents_def Math_round_def Math_floor_def Let_def
  floor_rat_numeral_div floor_rat_neg_numeral_div


section \<open>Rounding and the \<open>break\<close> test\<close>

lemma round_cents_nonpos: "x \<le> 0 \<Longrightarrow> round_cents x \<le> 0"
proof -
  assume "x \<le> 0"
  then have "x * 100 + 1 / 2 < 1" by simp
  then have "\<lfloor>x * 100 + 1 / 2\<rfloor> \<le> 0" by (simp add: floor_le_iff)
  then show ?thesis by (simp add: round_cents_def Math_round_def divide_nonpos_pos)
qed

lemma bills_loop_break: "remaining s \<le> 0 \<Longrightarrow> bills_loop c ds s = s"
  by (cases ds) simp_all

lemma coins_loop_break: "remaining s \<le> 0 \<Longrightarrow> coins_loop c ds s = s"
  by (cases ds) simp_all


section \<open>The two views run the same allocation\<close>

lemma stelno_bill_body_eq:
  "stelno_bill_body c d (to_stelno s) = to_stelno (bill_body c d s)"
  by (cases "c d")
    (simp_all add: stelno_bill_body_def bill_body_def to_stelno_def Let_def or0_def)

lemma stelno_coin_body_eq:
  "stelno_coin_body c d (to_stelno s) = to_stelno (coin_body c d s)"
  by (cases "c d")
    (simp_all add: stelno_coin_body_def coin_body_def to_stelno_def Let_def or0_def)

lemma stelno_bills_loop_eq:
  "stelno_bills_loop c ds (to_stelno s) = to_stelno (bills_loop c ds s)"
proof (induction ds arbitrary: s)
  case Nil
  show ?case by simp
next
  case (Cons d ds)
  have r: "s_remaining (to_stelno s) = remaining s" by (simp add: to_stelno_def)
  show ?case
    by (simp add: r stelno_bill_body_eq Cons.IH)
qed

lemma stelno_coins_loop_eq:
  "stelno_coins_loop c ds (to_stelno s) = to_stelno (coins_loop c ds s)"
proof (induction ds arbitrary: s)
  case Nil
  show ?case by simp
next
  case (Cons d ds)
  have r: "s_remaining (to_stelno s) = remaining s" by (simp add: to_stelno_def)
  show ?case
    by (simp add: r stelno_coin_body_eq Cons.IH)
qed

lemma stelno_alloc_eq:
  "stelno_alloc t bc cc = to_stelno (fakelos_alloc t bc cc)"
proof -
  have "\<lparr>s_usedBills = Map.empty, s_usedCoins = Map.empty, s_remaining = round_cents t\<rparr>
        = to_stelno (fakelos_init t)"
    by (simp add: to_stelno_def fakelos_init_def)
  then show ?thesis
    by (simp add: stelno_alloc_def fakelos_alloc_def billDenoms_def coinDenoms_def
        billDenominations_def coinDenominations_def
        stelno_bills_loop_eq stelno_coins_loop_eq
        del: bills_loop.simps coins_loop.simps
          stelno_bills_loop.simps stelno_coins_loop.simps)
qed

text \<open>
  Claim C6. For the same cash total and the same counts, the loops of \<open>calculateFakelos\<close>
  and of \<open>showStelno\<close> end with the same used bills, the same used coins and the same
  remaining amount, and the rows of what is left, computed by the same expression in both
  functions, agree for every denomination.
\<close>

theorem C6_fakelos_stelno_agree:
  "s_usedBills (stelno_alloc t bc cc) = usedBills (fakelos_alloc t bc cc) \<and>
   s_usedCoins (stelno_alloc t bc cc) = usedCoins (fakelos_alloc t bc cc) \<and>
   s_remaining (stelno_alloc t bc cc) = remaining (fakelos_alloc t bc cc) \<and>
   stelno_left bc (s_usedBills (stelno_alloc t bc cc))
     = left bc (usedBills (fakelos_alloc t bc cc)) \<and>
   stelno_left cc (s_usedCoins (stelno_alloc t bc cc))
     = left cc (usedCoins (fakelos_alloc t bc cc))"
  by (simp add: stelno_alloc_eq to_stelno_def fun_eq_iff stelno_left_def left_def)


section \<open>A cash total that is not positive\<close>

text \<open>
  Claim C7. When the cash total is zero or negative, whatever the counts are, no bill and
  no coin is used, no amount is reported as missing, and \<open>calculateFakelos\<close> shows its
  plain message: the case is an ordinary result.
\<close>

theorem C7_nonpositive_target:
  assumes "cash \<le> 0"
  shows "usedBills (fakelos_alloc cash bc cc) = Map.empty \<and>
         usedCoins (fakelos_alloc cash bc cc) = Map.empty \<and>
         remainingUncovered (fakelos_alloc cash bc cc) = 0 \<and>
         calculateFakelos cash bc cc = NoCash"
proof -
  have r: "remaining (fakelos_init cash) \<le> 0"
    using assms by (simp add: fakelos_init_def round_cents_nonpos)
  have "fakelos_alloc cash bc cc = fakelos_init cash"
    by (simp add: fakelos_alloc_def bills_loop_break [OF r] coins_loop_break [OF r])
  then show ?thesis
    using r assms by (simp add: remainingUncovered_def calculateFakelos_def fakelos_init_def)
qed

theorem C7_nonpositive_target_witness:
  "(- 5 :: rat) \<le> 0 \<and>
   usedBills (fakelos_alloc (- 5) [100 \<mapsto> 3, 5 \<mapsto> 1] [2 \<mapsto> 4]) = Map.empty \<and>
   usedCoins (fakelos_alloc (- 5) [100 \<mapsto> 3, 5 \<mapsto> 1] [2 \<mapsto> 4]) = Map.empty \<and>
   remainingUncovered (fakelos_alloc (- 5) [100 \<mapsto> 3, 5 \<mapsto> 1] [2 \<mapsto> 4]) = 0 \<and>
   calculateFakelos (- 5) [100 \<mapsto> 3, 5 \<mapsto> 1] [2 \<mapsto> 4] = NoCash"
  using C7_nonpositive_target [of "- 5" "[100 \<mapsto> 3, 5 \<mapsto> 1]" "[2 \<mapsto> 4]"] by simp


section \<open>A worked allocation\<close>

text \<open>
  Claim C8. For the cash total 17.35, no bills, five coins of 2, five of 1, two of 0.5, one
  of 0.2 and none of 0.1 and 0.05: after the coins of 2, 1 and 0.5 the used coins are worth
  16.00 and 1.35 remains; at 0.2 six coins are needed and the one available is used; the
  loops end with 1.15 remaining, which is the amount reported as missing.
\<close>

theorem C8_scenario:
  "coins_loop [2 \<mapsto> 5, 1 \<mapsto> 5, 1 / 2 \<mapsto> 2, 1 / 5 \<mapsto> 1, 1 / 10 \<mapsto> 0, 1 / 20 \<mapsto> 0]
      [2, 1, 1 / 2]
      (bills_loop [100 \<mapsto> 0, 50 \<mapsto> 0, 20 \<mapsto> 0, 10 \<mapsto> 0, 5 \<mapsto> 0] billDenominations
         (fakelos_init (1735 / 100)))
     = \<lparr>usedBills = Map.empty, usedCoins = [2 \<mapsto> 5, 1 \<mapsto> 5, 1 / 2 \<mapsto> 2],
        remaining = 135 / 100, billsTotal = 0, coinsTotal = 16\<rparr> \<and>
   Math_floor ((135 / 100 + 1 / 1000) / (1 / 5)) = 6 \<and>
   fakelos_alloc (1735 / 100)
      [100 \<mapsto> 0, 50 \<mapsto> 0, 20 \<mapsto> 0, 10 \<mapsto> 0, 5 \<mapsto> 0]
      [2 \<mapsto> 5, 1 \<mapsto> 5, 1 / 2 \<mapsto> 2, 1 / 5 \<mapsto> 1, 1 / 10 \<mapsto> 0, 1 / 20 \<mapsto> 0]
     = \<lparr>usedBills = Map.empty,
        usedCoins = [2 \<mapsto> 5, 1 \<mapsto> 5, 1 / 2 \<mapsto> 2, 1 / 5 \<mapsto> 1],
        remaining = 115 / 100, billsTotal = 0, coinsTotal = 16 + 1 / 5\<rparr> \<and>
   remainingUncovered
     (fakelos_alloc (1735 / 100)
        [100 \<mapsto> 0, 50 \<mapsto> 0, 20 \<mapsto> 0, 10 \<mapsto> 0, 5 \<mapsto> 0]
        [2 \<mapsto> 5, 1 \<mapsto> 5, 1 / 2 \<mapsto> 2, 1 / 5 \<mapsto> 1, 1 / 10 \<mapsto> 0, 1 / 20 \<mapsto> 0])
     = 115 / 100"
  by (simp add: alloc_eval remainingUncovered_def)


section \<open>Amounts in whole cents\<close>

lemma is_cents_iff: "is_cents x \<longleftrightarrow> (\<exists>k::int. x * 100 = of_int k)"
  by (simp add: is_cents_def)

lemma round_cents_id: 
  assumes "is_cents x" shows "round_cents x = x"
proof -
  from assms obtain k :: int where k: "x * 100 = of_int k" by (auto simp: is_cents_iff)
  have "\<lfloor>(of_int k :: rat) + 1 / 2\<rfloor> = k" by (simp add: floor_unique)
  then have "round_cents x * 100 = x * 100" by (simp add: round_cents_def Math_round_def k)
  then show ?thesis by simp
qed

lemma is_cents_round_cents: "is_cents (round_cents x)"
  by (simp add: is_cents_iff round_cents_def)

lemma is_cents_diff_mult:
  assumes "is_cents r" "is_cents d"
  shows "is_cents (r - of_int u * d)"
proof -
  from assms obtain k m :: int where "r * 100 = of_int k" "d * 100 = of_int m"
    by (auto simp: is_cents_iff)
  then have "(r - of_int u * d) * 100 = of_int (k - u * m)"
    by (simp add: algebra_simps)
  then show ?thesis unfolding is_cents_iff by blast
qed

lemma round_cents_diff_mult:
  assumes "is_cents r" "is_cents d"
  shows "round_cents (r - of_int u * d) = r - of_int u * d"
  by (rule round_cents_id [OF is_cents_diff_mult [OF assms]])

lemma bill_fits:
  assumes "0 < (d::rat)" "u \<le> \<lfloor>r / d\<rfloor>"
  shows "of_int u * d \<le> r"
proof -
  have "(of_int u :: rat) \<le> of_int \<lfloor>r / d\<rfloor>" using assms(2) by simp
  also have "\<dots> \<le> r / d" by simp
  finally show ?thesis using assms(1) by (simp add: pos_le_divide_eq)
qed

lemma coin_fits:
  assumes "0 < (d::rat)" "is_cents r" "is_cents d" "u \<le> \<lfloor>(r + 1 / 1000) / d\<rfloor>"
  shows "of_int u * d \<le> r"
proof -
  from assms obtain k m :: int where km: "r * 100 = of_int k" "d * 100 = of_int m"
    by (auto simp: is_cents_iff)
  have "of_int u * d \<le> r + 1 / 1000"
    using bill_fits [OF assms(1) assms(4)] .
  then have "of_int u * (d * 100) \<le> r * 100 + 1 / 10"
    by simp
  then have "(of_int (u * m) :: rat) \<le> of_int k + 1 / 10"
    by (simp add: km)
  then have "(of_int (u * m) :: rat) < of_int (k + 1)"
    by simp
  then have "u * m < k + 1" by (simp only: of_int_less_iff)
  then have "u * m \<le> k" by simp
  then have "(of_int (u * m) :: rat) \<le> of_int k" by (simp only: of_int_le_iff)
  then have "of_int u * (d * 100) \<le> r * 100" by (simp add: km)
  then show ?thesis by simp
qed

lemma bill_body_cases:
  assumes "is_cents (remaining s)" "is_cents d" "0 < d"
  shows "bill_body bc d s = s \<or>
         (\<exists>u. 0 < u \<and> of_int u * d \<le> remaining s \<and>
              bill_body bc d s =
                s\<lparr>usedBills := (usedBills s)(d \<mapsto> u),
                  remaining := remaining s - of_int u * d,
                  billsTotal := billsTotal s + of_int u * d\<rparr>)"
proof (cases "bc d")
  case None
  then show ?thesis by (simp add: bill_body_def)
next
  case (Some a)
  define u where "u = min \<lfloor>remaining s / d\<rfloor> a"
  have body: "bill_body bc d s =
                (if u > 0 then
                   s\<lparr>usedBills := (usedBills s)(d \<mapsto> u),
                     remaining := round_cents (remaining s - of_int u * d),
                     billsTotal := billsTotal s + of_int u * d\<rparr>
                 else s)"
    by (simp only: bill_body_def Math_floor_def Let_def Some option.case u_def)
  show ?thesis
  proof (cases "0 < u")
    case False
    then show ?thesis by (simp only: body if_False simp_thms)
  next
    case True
    have "u \<le> \<lfloor>remaining s / d\<rfloor>" by (simp add: u_def)
    then have fit: "of_int u * d \<le> remaining s"
      by (rule bill_fits [OF assms(3)])
    have "bill_body bc d s =
            s\<lparr>usedBills := (usedBills s)(d \<mapsto> u),
              remaining := remaining s - of_int u * d,
              billsTotal := billsTotal s + of_int u * d\<rparr>"
      by (simp only: body True if_True round_cents_diff_mult [OF assms(1,2)])
    with True fit show ?thesis by blast
  qed
qed

lemma coin_body_cases:
  assumes "is_cents (remaining s)" "is_cents d" "0 < d"
  shows "coin_body cc d s = s \<or>
         (\<exists>u. 0 < u \<and> of_int u * d \<le> remaining s \<and>
              coin_body cc d s =
                s\<lparr>usedCoins := (usedCoins s)(d \<mapsto> u),
                  remaining := remaining s - of_int u * d,
                  coinsTotal := coinsTotal s + of_int u * d\<rparr>)"
proof (cases "cc d")
  case None
  then show ?thesis by (simp add: coin_body_def)
next
  case (Some a)
  define u where "u = min \<lfloor>(remaining s + 1 / 1000) / d\<rfloor> a"
  have body: "coin_body cc d s =
                (if u > 0 then
                   s\<lparr>usedCoins := (usedCoins s)(d \<mapsto> u),
                     remaining := round_cents (remaining s - of_int u * d),
                     coinsTotal := coinsTotal s + of_int u * d\<rparr>
                 else s)"
    by (simp only: coin_body_def Math_floor_def Let_def Some option.case u_def)
  show ?thesis
  proof (cases "0 < u")
    case False
    then show ?thesis by (simp only: body if_False simp_thms)
  next
    case True
    have "u \<le> \<lfloor>(remaining s + 1 / 1000) / d\<rfloor>" by (simp add: u_def)
    then have fit: "of_int u * d \<le> remaining s"
      by (rule coin_fits [OF assms(3) assms(1) assms(2)])
    have "coin_body cc d s =
            s\<lparr>usedCoins := (usedCoins s)(d \<mapsto> u),
              remaining := remaining s - of_int u * d,
              coinsTotal := coinsTotal s + of_int u * d\<rparr>"
      by (simp only: body True if_True round_cents_diff_mult [OF assms(1,2)])
    with True fit show ?thesis by blast
  qed
qed

lemma used_value_append:
  "used_value (xs @ ys) u = used_value xs u + used_value ys u"
  by (simp add: used_value_def)

lemma used_value_upd_other:
  "d \<notin> set xs \<Longrightarrow> used_value xs (u(d \<mapsto> v)) = used_value xs u"
  by (induction xs) (auto simp: used_value_def)

lemma used_value_single: "used_value [d] u = of_int (or0 (u d)) * d"
  by (simp add: used_value_def)

lemma used_value_outside:
  "set xs \<inter> dom u = {} \<Longrightarrow> used_value xs u = 0"
  by (induction xs) (auto simp: used_value_def or0_def dom_def split: option.splits)


lemma bills_loop_inv:
  assumes "distinct (pre @ ds)" "\<And>d. d \<in> set ds \<Longrightarrow> is_cents d \<and> 0 < d"
    "is_cents (remaining s)" "0 \<le> remaining s"
    "dom (usedBills s) \<subseteq> set pre" "used_value pre (usedBills s) = billsTotal s"
  shows "is_cents (remaining (bills_loop bc ds s)) \<and>
         0 \<le> remaining (bills_loop bc ds s) \<and>
         dom (usedBills (bills_loop bc ds s)) \<subseteq> set (pre @ ds) \<and>
         used_value (pre @ ds) (usedBills (bills_loop bc ds s)) = billsTotal (bills_loop bc ds s) \<and>
         billsTotal (bills_loop bc ds s) + remaining (bills_loop bc ds s)
           = billsTotal s + remaining s \<and>
         usedCoins (bills_loop bc ds s) = usedCoins s \<and>
         coinsTotal (bills_loop bc ds s) = coinsTotal s"
  using assms
proof (induction ds arbitrary: pre s)
  case Nil
  then show ?case by simp
next
  case (Cons d ds)
  have out: "set (d # ds) \<inter> dom (usedBills s) = {}"
    using Cons.prems(1,5) by auto
  show ?case
  proof (cases "remaining s \<le> 0")
    case True
    have "used_value (pre @ d # ds) (usedBills s) = billsTotal s"
      using used_value_outside [OF out] Cons.prems(6) by (simp add: used_value_append)
    then show ?thesis
      using True Cons.prems by auto
  next
    case False
    define s1 where "s1 = bill_body bc d s"
    have dprops: "is_cents d" "0 < d" using Cons.prems(2) by simp_all
    have dpre: "d \<notin> set pre" "d \<notin> dom (usedBills s)"
      using Cons.prems(1,5) by auto
    have step: "is_cents (remaining s1) \<and> 0 \<le> remaining s1 \<and>
                dom (usedBills s1) \<subseteq> set (pre @ [d]) \<and>
                used_value (pre @ [d]) (usedBills s1) = billsTotal s1 \<and>
                billsTotal s1 + remaining s1 = billsTotal s + remaining s \<and>
                usedCoins s1 = usedCoins s \<and> coinsTotal s1 = coinsTotal s"
      using bill_body_cases [OF Cons.prems(3) dprops, of bc]
    proof (elim disjE exE conjE)
      assume "bill_body bc d s = s"
      then have "s1 = s" by (simp add: s1_def)
      moreover have "or0 (usedBills s d) = 0"
        using dpre(2) by (auto simp: or0_def dom_def split: option.splits)
      ultimately show ?thesis
        using Cons.prems(3-6) by (auto simp: used_value_append used_value_single)
    next
      fix u :: int
      assume u: "0 < u" "of_int u * d \<le> remaining s"
        and "bill_body bc d s =
               s\<lparr>usedBills := (usedBills s)(d \<mapsto> u),
                 remaining := remaining s - of_int u * d,
                 billsTotal := billsTotal s + of_int u * d\<rparr>"
      then have s1: "s1 = s\<lparr>usedBills := (usedBills s)(d \<mapsto> u),
                 remaining := remaining s - of_int u * d,
                 billsTotal := billsTotal s + of_int u * d\<rparr>"
        by (simp add: s1_def)
      have "is_cents (remaining s1)"
        by (simp add: s1 is_cents_diff_mult [OF Cons.prems(3) dprops(1)])
      moreover have "0 \<le> remaining s1" using u(2) by (simp add: s1)
      moreover have "dom (usedBills s1) \<subseteq> set (pre @ [d])"
        using Cons.prems(5) by (auto simp: s1)
      moreover have "used_value (pre @ [d]) (usedBills s1) = billsTotal s1"
        using Cons.prems(6) dpre(1)
        by (simp add: s1 used_value_append used_value_single used_value_upd_other or0_def)
      ultimately show ?thesis by (simp add: s1)
    qed
    have "distinct ((pre @ [d]) @ ds)" using Cons.prems(1) by simp
    from Cons.IH [OF this, of s1] step Cons.prems(2)
    have "is_cents (remaining (bills_loop bc ds s1)) \<and>
         0 \<le> remaining (bills_loop bc ds s1) \<and>
         dom (usedBills (bills_loop bc ds s1)) \<subseteq> set ((pre @ [d]) @ ds) \<and>
         used_value ((pre @ [d]) @ ds) (usedBills (bills_loop bc ds s1)) = billsTotal (bills_loop bc ds s1) \<and>
         billsTotal (bills_loop bc ds s1) + remaining (bills_loop bc ds s1)
           = billsTotal s1 + remaining s1 \<and>
         usedCoins (bills_loop bc ds s1) = usedCoins s1 \<and>
         coinsTotal (bills_loop bc ds s1) = coinsTotal s1"
      by simp
    moreover have "bills_loop bc (d # ds) s = bills_loop bc ds s1"
      using False by (simp add: s1_def)
    ultimately show ?thesis using step by simp
  qed
qed

lemma coins_loop_inv:
  assumes "distinct (pre @ ds)" "\<And>d. d \<in> set ds \<Longrightarrow> is_cents d \<and> 0 < d"
    "is_cents (remaining s)" "0 \<le> remaining s"
    "dom (usedCoins s) \<subseteq> set pre" "used_value pre (usedCoins s) = coinsTotal s"
  shows "is_cents (remaining (coins_loop cc ds s)) \<and>
         0 \<le> remaining (coins_loop cc ds s) \<and>
         dom (usedCoins (coins_loop cc ds s)) \<subseteq> set (pre @ ds) \<and>
         used_value (pre @ ds) (usedCoins (coins_loop cc ds s)) = coinsTotal (coins_loop cc ds s) \<and>
         coinsTotal (coins_loop cc ds s) + remaining (coins_loop cc ds s)
           = coinsTotal s + remaining s \<and>
         usedBills (coins_loop cc ds s) = usedBills s \<and>
         billsTotal (coins_loop cc ds s) = billsTotal s"
  using assms
proof (induction ds arbitrary: pre s)
  case Nil
  then show ?case by simp
next
  case (Cons d ds)
  have out: "set (d # ds) \<inter> dom (usedCoins s) = {}"
    using Cons.prems(1,5) by auto
  show ?case
  proof (cases "remaining s \<le> 0")
    case True
    have "used_value (pre @ d # ds) (usedCoins s) = coinsTotal s"
      using used_value_outside [OF out] Cons.prems(6) by (simp add: used_value_append)
    then show ?thesis
      using True Cons.prems by auto
  next
    case False
    define s1 where "s1 = coin_body cc d s"
    have dprops: "is_cents d" "0 < d" using Cons.prems(2) by simp_all
    have dpre: "d \<notin> set pre" "d \<notin> dom (usedCoins s)"
      using Cons.prems(1,5) by auto
    have step: "is_cents (remaining s1) \<and> 0 \<le> remaining s1 \<and>
                dom (usedCoins s1) \<subseteq> set (pre @ [d]) \<and>
                used_value (pre @ [d]) (usedCoins s1) = coinsTotal s1 \<and>
                coinsTotal s1 + remaining s1 = coinsTotal s + remaining s \<and>
                usedBills s1 = usedBills s \<and> billsTotal s1 = billsTotal s"
      using coin_body_cases [OF Cons.prems(3) dprops, of cc]
    proof (elim disjE exE conjE)
      assume "coin_body cc d s = s"
      then have "s1 = s" by (simp add: s1_def)
      moreover have "or0 (usedCoins s d) = 0"
        using dpre(2) by (auto simp: or0_def dom_def split: option.splits)
      ultimately show ?thesis
        using Cons.prems(3-6) by (auto simp: used_value_append used_value_single)
    next
      fix u :: int
      assume u: "0 < u" "of_int u * d \<le> remaining s"
        and "coin_body cc d s =
               s\<lparr>usedCoins := (usedCoins s)(d \<mapsto> u),
                 remaining := remaining s - of_int u * d,
                 coinsTotal := coinsTotal s + of_int u * d\<rparr>"
      then have s1: "s1 = s\<lparr>usedCoins := (usedCoins s)(d \<mapsto> u),
                 remaining := remaining s - of_int u * d,
                 coinsTotal := coinsTotal s + of_int u * d\<rparr>"
        by (simp add: s1_def)
      have "is_cents (remaining s1)"
        by (simp add: s1 is_cents_diff_mult [OF Cons.prems(3) dprops(1)])
      moreover have "0 \<le> remaining s1" using u(2) by (simp add: s1)
      moreover have "dom (usedCoins s1) \<subseteq> set (pre @ [d])"
        using Cons.prems(5) by (auto simp: s1)
      moreover have "used_value (pre @ [d]) (usedCoins s1) = coinsTotal s1"
        using Cons.prems(6) dpre(1)
        by (simp add: s1 used_value_append used_value_single used_value_upd_other or0_def)
      ultimately show ?thesis by (simp add: s1)
    qed
    have "distinct ((pre @ [d]) @ ds)" using Cons.prems(1) by simp
    from Cons.IH [OF this, of s1] step Cons.prems(2)
    have "is_cents (remaining (coins_loop cc ds s1)) \<and>
         0 \<le> remaining (coins_loop cc ds s1) \<and>
         dom (usedCoins (coins_loop cc ds s1)) \<subseteq> set ((pre @ [d]) @ ds) \<and>
         used_value ((pre @ [d]) @ ds) (usedCoins (coins_loop cc ds s1)) = coinsTotal (coins_loop cc ds s1) \<and>
         coinsTotal (coins_loop cc ds s1) + remaining (coins_loop cc ds s1)
           = coinsTotal s1 + remaining s1 \<and>
         usedBills (coins_loop cc ds s1) = usedBills s1 \<and>
         billsTotal (coins_loop cc ds s1) = billsTotal s1"
      by simp
    moreover have "coins_loop cc (d # ds) s = coins_loop cc ds s1"
      using False by (simp add: s1_def)
    ultimately show ?thesis using step by simp
  qed
qed








lemma bill_body_usedCoins: "usedCoins (bill_body bc d s) = usedCoins s"
  by (cases "bc d") (simp_all add: bill_body_def Let_def)








section \<open>The loops against the specification's wording\<close>

lemma spec_iterate_stop: "snd ur \<le> 0 \<Longrightarrow> spec_iterate av xs ur = ur"
  by (cases xs) simp_all

lemma spec_step_bill:
  assumes "bc d = Some (av d)" "usedCoins s = Map.empty"
  shows "spec_step av (Bill, d) (alloc_result s) = alloc_result (bill_body bc d s)"
  using assms
  by (simp add: spec_step_def spec_needed_def alloc_result_def bill_body_def Math_floor_def Let_def)

lemma spec_step_coin:
  assumes "cc d = Some (av d)"
  shows "spec_step av (Coin, d) (alloc_result s) = alloc_result (coin_body cc d s)"
  using assms
  by (simp add: spec_step_def spec_needed_def alloc_result_def coin_body_def Math_floor_def Let_def)

lemma spec_iterate_bills:
  assumes "\<And>d. d \<in> set bs \<Longrightarrow> bc d = Some (av d)" "usedCoins s = Map.empty"
  shows "spec_iterate av (map (Pair Bill) bs @ rest) (alloc_result s)
           = spec_iterate av rest (alloc_result (bills_loop bc bs s))"
  using assms
proof (induction bs arbitrary: s)
  case Nil
  show ?case by simp
next
  case (Cons d bs)
  show ?case
  proof (cases "remaining s \<le> 0")
    case True
    then have "snd (alloc_result s) \<le> 0" by (simp add: alloc_result_def)
    then show ?thesis using True by (simp add: spec_iterate_stop)
  next
    case False
    then have pos: "snd (alloc_result s) > 0" by (simp add: alloc_result_def)
    have d: "bc d = Some (av d)" using Cons.prems(1) by simp
    have uc: "usedCoins (bill_body bc d s) = Map.empty"
      using Cons.prems(2) by (simp add: bill_body_usedCoins)
    have "spec_iterate av (map (Pair Bill) (d # bs) @ rest) (alloc_result s)
            = spec_iterate av (map (Pair Bill) bs @ rest) (alloc_result (bill_body bc d s))"
      using pos spec_step_bill [of bc d av s] d Cons.prems(2) by simp
    also have "\<dots> = spec_iterate av rest (alloc_result (bills_loop bc bs (bill_body bc d s)))"
      by (rule Cons.IH [OF _ uc]) (simp add: Cons.prems(1))
    finally show ?thesis using False by simp
  qed
qed

lemma spec_iterate_coins:
  assumes "\<And>d. d \<in> set cs \<Longrightarrow> cc d = Some (av d)"
  shows "spec_iterate av (map (Pair Coin) cs) (alloc_result s) = alloc_result (coins_loop cc cs s)"
  using assms
proof (induction cs arbitrary: s)
  case Nil
  show ?case by simp
next
  case (Cons d cs)
  show ?case
  proof (cases "remaining s \<le> 0")
    case True
    then have "snd (alloc_result s) \<le> 0" by (simp add: alloc_result_def)
    then show ?thesis using True by (simp add: spec_iterate_stop)
  next
    case False
    then have pos: "snd (alloc_result s) > 0" by (simp add: alloc_result_def)
    have d: "cc d = Some (av d)" using Cons.prems(1) by simp
    have "spec_iterate av (map (Pair Coin) (d # cs)) (alloc_result s)
            = spec_iterate av (map (Pair Coin) cs) (alloc_result (coin_body cc d s))"
      using pos spec_step_coin [of cc d av s] d by simp
    also have "\<dots> = alloc_result (coins_loop cc cs (coin_body cc d s))"
      by (rule Cons.IH) (simp add: Cons.prems(1))
    finally show ?thesis using False by simp
  qed
qed

lemma priority_split:
  "priority = map (Pair Bill) billDenominations @ map (Pair Coin) coinDenominations"
  by (simp add: priority_def billDenominations_def coinDenominations_def)

text \<open>
  Claim C1. When the two count tables of the script hold the available count of every
  bill and of every coin, the loops of \<open>calculateFakelos\<close> compute what the one pass of
  the specification computes: bills in the order 100, 50, 20, 10, 5, then coins in the
  order 2, 1, 0.5, 0.2, 0.1, 0.05, the needed count by the floor for the category, the
  used count as the smaller of needed and available, a positive used count recorded and
  subtracted with the remainder rounded to cents again, and nothing more once the
  remainder is not positive. The used pieces and the final remainder are the same.
\<close>

theorem C1_allocation_order_and_step:
  assumes "\<And>d. d \<in> set billDenominations \<Longrightarrow> billCounts d = Some (available d)"
    and "\<And>d. d \<in> set coinDenominations \<Longrightarrow> coinCounts d = Some (available d)"
  shows "spec_iterate available priority (Map.empty, round_cents cash)
           = (usedBills (fakelos_alloc cash billCounts coinCounts)
                ++ usedCoins (fakelos_alloc cash billCounts coinCounts),
              remaining (fakelos_alloc cash billCounts coinCounts))"
proof -
  have init: "(Map.empty, round_cents cash) = alloc_result (fakelos_init cash)"
    by (simp add: alloc_result_def fakelos_init_def)
  have "spec_iterate available priority (alloc_result (fakelos_init cash))
          = spec_iterate available (map (Pair Coin) coinDenominations)
              (alloc_result (bills_loop billCounts billDenominations (fakelos_init cash)))"
    unfolding priority_split
    by (rule spec_iterate_bills [OF assms(1)]) (simp_all add: fakelos_init_def)
  also have "\<dots> = alloc_result (fakelos_alloc cash billCounts coinCounts)"
    unfolding fakelos_alloc_def by (rule spec_iterate_coins [OF assms(2)])
  finally show ?thesis by (simp add: init alloc_result_def)
qed

theorem C1_allocation_order_and_step_witness:
  "spec_iterate (\<lambda>d. if d = 100 \<or> d = 50 then 1 else 0) priority
     (Map.empty, round_cents 135)
   = (usedBills (fakelos_alloc 135
          [100 \<mapsto> 1, 50 \<mapsto> 1, 20 \<mapsto> 0, 10 \<mapsto> 0, 5 \<mapsto> 0]
          [2 \<mapsto> 0, 1 \<mapsto> 0, 1 / 2 \<mapsto> 0, 1 / 5 \<mapsto> 0, 1 / 10 \<mapsto> 0, 1 / 20 \<mapsto> 0])
        ++ usedCoins (fakelos_alloc 135
          [100 \<mapsto> 1, 50 \<mapsto> 1, 20 \<mapsto> 0, 10 \<mapsto> 0, 5 \<mapsto> 0]
          [2 \<mapsto> 0, 1 \<mapsto> 0, 1 / 2 \<mapsto> 0, 1 / 5 \<mapsto> 0, 1 / 10 \<mapsto> 0, 1 / 20 \<mapsto> 0]),
      remaining (fakelos_alloc 135
          [100 \<mapsto> 1, 50 \<mapsto> 1, 20 \<mapsto> 0, 10 \<mapsto> 0, 5 \<mapsto> 0]
          [2 \<mapsto> 0, 1 \<mapsto> 0, 1 / 2 \<mapsto> 0, 1 / 5 \<mapsto> 0, 1 / 10 \<mapsto> 0, 1 / 20 \<mapsto> 0])) \<and>
   remaining (fakelos_alloc 135
          [100 \<mapsto> 1, 50 \<mapsto> 1, 20 \<mapsto> 0, 10 \<mapsto> 0, 5 \<mapsto> 0]
          [2 \<mapsto> 0, 1 \<mapsto> 0, 1 / 2 \<mapsto> 0, 1 / 5 \<mapsto> 0, 1 / 10 \<mapsto> 0, 1 / 20 \<mapsto> 0]) = 35"
proof -
  let ?av = "\<lambda>d::rat. if d = 100 \<or> d = 50 then 1 else (0::int)"
  let ?bc = "[100 \<mapsto> 1, 50 \<mapsto> 1, 20 \<mapsto> 0, 10 \<mapsto> 0, 5 \<mapsto> (0::int)] :: rat \<rightharpoonup> int"
  let ?cc = "[2 \<mapsto> 0, 1 \<mapsto> 0, 1 / 2 \<mapsto> 0, 1 / 5 \<mapsto> 0, 1 / 10 \<mapsto> 0, 1 / 20 \<mapsto> (0::int)]
               :: rat \<rightharpoonup> int"
  have b: "\<And>d. d \<in> set billDenominations \<Longrightarrow> ?bc d = Some (?av d)"
    by (auto simp: billDenominations_def)
  have c: "\<And>d. d \<in> set coinDenominations \<Longrightarrow> ?cc d = Some (?av d)"
    by (auto simp: coinDenominations_def)
  have r: "remaining (fakelos_alloc 135 ?bc ?cc) = 35"
    by (simp add: alloc_eval)
  show ?thesis
    using C1_allocation_order_and_step [of ?bc ?av ?cc 135, OF b c] r by simp
qed


section \<open>Conservation of the amount\<close>

lemma billDenominations_ok:
  "distinct billDenominations" "d \<in> set billDenominations \<Longrightarrow> is_cents d \<and> 0 < d"
proof -
  show "distinct billDenominations" by (simp add: billDenominations_def)
  have "list_all (\<lambda>d. is_cents d \<and> 0 < d) billDenominations"
    by (simp add: billDenominations_def is_cents_def)
  then show "d \<in> set billDenominations \<Longrightarrow> is_cents d \<and> 0 < d"
    by (simp add: list_all_iff)
qed

lemma coinDenominations_ok:
  "distinct coinDenominations" "d \<in> set coinDenominations \<Longrightarrow> is_cents d \<and> 0 < d"
proof -
  show "distinct coinDenominations" by (simp add: coinDenominations_def)
  have "list_all (\<lambda>d. is_cents d \<and> 0 < d) coinDenominations"
    by (simp add: coinDenominations_def is_cents_def)
  then show "d \<in> set coinDenominations \<Longrightarrow> is_cents d \<and> 0 < d"
    by (simp add: list_all_iff)
qed

text \<open>
  Claim C10. When the cash total rounded to cents is positive, then for any counts the
  value of the used bills plus the value of the used coins plus the final remainder is
  exactly the rounded cash total, and the remainder is never negative: not at the end and
  not after any number of iterations of the bills loop and of the coins loop.
\<close>

theorem C10_conservation:
  assumes "0 < round_cents cash"
  shows "used_value billDenominations (usedBills (fakelos_alloc cash bc cc))
           + used_value coinDenominations (usedCoins (fakelos_alloc cash bc cc))
           + remaining (fakelos_alloc cash bc cc)
           = round_cents cash \<and>
         0 \<le> remaining (fakelos_alloc cash bc cc) \<and>
         0 \<le> remaining (coins_loop cc (take n coinDenominations)
                 (bills_loop bc (take m billDenominations) (fakelos_init cash)))"
proof -
  define s0 where "s0 = fakelos_init cash"
  have s0: "is_cents (remaining s0)" "0 \<le> remaining s0" "dom (usedBills s0) \<subseteq> set []"
    "used_value [] (usedBills s0) = billsTotal s0" "dom (usedCoins s0) \<subseteq> set []"
    "used_value [] (usedCoins s0) = coinsTotal s0" "billsTotal s0 = 0" "coinsTotal s0 = 0"
    "remaining s0 = round_cents cash"
    using assms by (simp_all add: s0_def fakelos_init_def is_cents_round_cents used_value_def)
  have inv_b: "is_cents (remaining (bills_loop bc ds s0)) \<and>
         0 \<le> remaining (bills_loop bc ds s0) \<and>
         dom (usedBills (bills_loop bc ds s0)) \<subseteq> set ([] @ ds) \<and>
         used_value ([] @ ds) (usedBills (bills_loop bc ds s0)) = billsTotal (bills_loop bc ds s0) \<and>
         billsTotal (bills_loop bc ds s0) + remaining (bills_loop bc ds s0)
           = billsTotal s0 + remaining s0 \<and>
         usedCoins (bills_loop bc ds s0) = usedCoins s0 \<and>
         coinsTotal (bills_loop bc ds s0) = coinsTotal s0"
    if "distinct ds" "\<And>d. d \<in> set ds \<Longrightarrow> is_cents d \<and> 0 < d" for ds
    by (rule bills_loop_inv) (use that s0 in simp_all)
  have inv_c: "is_cents (remaining (coins_loop cc cs s1)) \<and>
         0 \<le> remaining (coins_loop cc cs s1) \<and>
         dom (usedCoins (coins_loop cc cs s1)) \<subseteq> set ([] @ cs) \<and>
         used_value ([] @ cs) (usedCoins (coins_loop cc cs s1)) = coinsTotal (coins_loop cc cs s1) \<and>
         coinsTotal (coins_loop cc cs s1) + remaining (coins_loop cc cs s1)
           = coinsTotal s1 + remaining s1 \<and>
         usedBills (coins_loop cc cs s1) = usedBills s1 \<and>
         billsTotal (coins_loop cc cs s1) = billsTotal s1"
    if "distinct cs" "\<And>d. d \<in> set cs \<Longrightarrow> is_cents d \<and> 0 < d"
      "s1 = bills_loop bc ds s0" "distinct ds" "\<And>d. d \<in> set ds \<Longrightarrow> is_cents d \<and> 0 < d"
    for cs ds s1
    by (rule coins_loop_inv) (use that inv_b [of ds] s0 in simp_all)
  have full_b: "distinct billDenominations"
    "\<And>d. d \<in> set billDenominations \<Longrightarrow> is_cents d \<and> 0 < d"
    by (rule billDenominations_ok)+
  have full_c: "distinct coinDenominations"
    "\<And>d. d \<in> set coinDenominations \<Longrightarrow> is_cents d \<and> 0 < d"
    by (rule coinDenominations_ok)+
  have take_b: "distinct (take m billDenominations)"
    "\<And>d. d \<in> set (take m billDenominations) \<Longrightarrow> is_cents d \<and> 0 < d"
    using full_b by (auto dest: in_set_takeD)
  have take_c: "distinct (take n coinDenominations)"
    "\<And>d. d \<in> set (take n coinDenominations) \<Longrightarrow> is_cents d \<and> 0 < d"
    using full_c by (auto dest: in_set_takeD)
  note B = inv_b [OF full_b]
  note C = inv_c [OF full_c refl full_b]
  note P = inv_c [OF take_c refl take_b]
  have alloc: "fakelos_alloc cash bc cc
                 = coins_loop cc coinDenominations (bills_loop bc billDenominations s0)"
    by (simp add: fakelos_alloc_def s0_def)
  have sum: "used_value billDenominations (usedBills (fakelos_alloc cash bc cc))
           + used_value coinDenominations (usedCoins (fakelos_alloc cash bc cc))
           + remaining (fakelos_alloc cash bc cc)
           = round_cents cash"
    unfolding alloc using B C s0 by simp
  have "0 \<le> remaining (fakelos_alloc cash bc cc)"
    unfolding alloc using C by simp
  moreover have "0 \<le> remaining (coins_loop cc (take n coinDenominations)
                 (bills_loop bc (take m billDenominations) (fakelos_init cash)))"
    using P by (simp add: s0_def)
  ultimately show ?thesis using sum by simp
qed

theorem C10_conservation_witness:
  "0 < round_cents (1735 / 100) \<and>
   used_value billDenominations (usedBills (fakelos_alloc (1735 / 100) [100 \<mapsto> 0] [2 \<mapsto> 5, 1 \<mapsto> 5]))
     + used_value coinDenominations (usedCoins (fakelos_alloc (1735 / 100) [100 \<mapsto> 0] [2 \<mapsto> 5, 1 \<mapsto> 5]))
     + remaining (fakelos_alloc (1735 / 100) [100 \<mapsto> 0] [2 \<mapsto> 5, 1 \<mapsto> 5])
     = 1735 / 100 \<and>
   0 \<le> remaining (fakelos_alloc (1735 / 100) [100 \<mapsto> 0] [2 \<mapsto> 5, 1 \<mapsto> 5])"
proof -
  have r: "round_cents (1735 / 100) = 1735 / 100"
    by (simp add: round_cents_def Math_round_def floor_rat_numeral_div)
  then have "0 < round_cents (1735 / 100)" by simp
  from C10_conservation [OF this, of "[100 \<mapsto> 0]" "[2 \<mapsto> 5, 1 \<mapsto> 5]" 0 0] r
  show ?thesis by simp
qed


section \<open>Reading and writing decimal numerals\<close>

lemmas parse_eval = parseFloat_def parse_unsigned_def is_digit_def digits_value_def digit_val_def

lemma string_of_nat_small: "n < 10 \<Longrightarrow> string_of_nat n = [digit_char n]"
  by (subst string_of_nat.simps) simp

lemma string_of_nat_large:
  "10 \<le> n \<Longrightarrow> string_of_nat n = string_of_nat (n div 10) @ [digit_char (n mod 10)]"
  by (subst string_of_nat.simps) simp

lemmas print_eval = string_of_nat_small string_of_nat_large digit_char_def toFixed2_def
   string_of_number_def Let_def floor_rat_numeral_div

lemma digit_table:
  "list_all (\<lambda>k. is_digit (digit_char k) \<and> digit_val (digit_char k) = k) [0..<10]"
  by (simp add: upt_conv_Cons is_digit_def digit_val_def digit_char_def)

lemma digit_char_props:
  "is_digit (digit_char n)" "digit_val (digit_char n) = n mod 10"
proof -
  have m: "digit_char n = digit_char (n mod 10)" by (simp add: digit_char_def)
  have "n mod 10 \<in> set [0..<10]" by simp
  with digit_table
  have "is_digit (digit_char (n mod 10)) \<and> digit_val (digit_char (n mod 10)) = n mod 10"
    unfolding list_all_iff by blast
  then show "is_digit (digit_char n)" "digit_val (digit_char n) = n mod 10"
    by (simp_all add: m [symmetric])
qed

lemma is_digit_not_sign:
  "is_digit c \<Longrightarrow> c \<noteq> CHR ''-'' \<and> c \<noteq> CHR ''+'' \<and> c \<noteq> CHR ''.''"
  by (auto simp: is_digit_def)

lemma digits_value_snoc: "digits_value (xs @ [c]) = 10 * digits_value xs + digit_val c"
  by (simp add: digits_value_def)

lemma string_of_nat_digits: "c \<in> set (string_of_nat n) \<Longrightarrow> is_digit c"
proof (induction n arbitrary: c rule: string_of_nat.induct)
  case (1 n)
  show ?case
  proof (cases "n < 10")
    case True
    then show ?thesis using "1.prems" by (simp add: string_of_nat_small digit_char_props)
  next
    case False
    then show ?thesis
      using "1.prems" "1.IH" by (auto simp: string_of_nat_large digit_char_props)
  qed
qed

lemma string_of_nat_nonempty: "string_of_nat n \<noteq> []"
  by (subst string_of_nat.simps) simp

lemma digits_value_string_of_nat: "digits_value (string_of_nat n) = n"
proof (induction n rule: string_of_nat.induct)
  case (1 n)
  show ?case
  proof (cases "n < 10")
    case True
    then show ?thesis
      by (simp add: string_of_nat_small digits_value_def digit_char_props)
  next
    case False
    then show ?thesis
      using "1.IH" by (simp add: string_of_nat_large digits_value_snoc digit_char_props)
  qed
qed

lemma takeWhile_string_of_nat:
  assumes "rest = [] \<or> \<not> is_digit (hd rest)"
  shows "takeWhile is_digit (string_of_nat n @ rest) = string_of_nat n"
    and "dropWhile is_digit (string_of_nat n @ rest) = rest"
proof -
  have r: "takeWhile is_digit rest = []" "dropWhile is_digit rest = rest"
    using assms by (cases rest; auto)+
  show "takeWhile is_digit (string_of_nat n @ rest) = string_of_nat n"
    using string_of_nat_digits [of _ n] r by (simp add: takeWhile_append2)
  show "dropWhile is_digit (string_of_nat n @ rest) = rest"
    using string_of_nat_digits [of _ n] r by (simp add: dropWhile_append2)
qed

lemma parse_unsigned_nat: "parse_unsigned (string_of_nat a) = Some (of_nat a)"
proof -
  have tw: "takeWhile is_digit (string_of_nat a) = string_of_nat a"
    and dw: "dropWhile is_digit (string_of_nat a) = []"
    using takeWhile_string_of_nat [of "[]" a] by simp_all
  show ?thesis
    by (simp add: parse_unsigned_def Let_def tw dw string_of_nat_nonempty
        digits_value_string_of_nat digits_value_def [of "[]"])
qed

lemma parse_unsigned_frac:
  assumes "\<And>c. c \<in> set fs \<Longrightarrow> is_digit c"
  shows "parse_unsigned (string_of_nat a @ CHR ''.'' # fs)
           = Some (of_nat a + of_nat (digits_value fs) / 10 ^ length fs)"
proof -
  have nd: "\<not> is_digit CHR ''.''" by (simp add: is_digit_def)
  have tw: "takeWhile is_digit fs = fs" using assms by (simp add: takeWhile_eq_all_conv)
  have tn: "takeWhile is_digit (string_of_nat a @ CHR ''.'' # fs) = string_of_nat a"
    and dn: "dropWhile is_digit (string_of_nat a @ CHR ''.'' # fs) = CHR ''.'' # fs"
    using takeWhile_string_of_nat [of "CHR ''.'' # fs" a] nd by simp_all
  show ?thesis
    by (simp add: parse_unsigned_def Let_def tn dn tw string_of_nat_nonempty
        digits_value_string_of_nat)
qed

lemma parseFloat_digit_first:
  assumes "s \<noteq> []" "is_digit (hd s)"
  shows "parseFloat s = parse_unsigned s"
  using assms is_digit_not_sign [of "hd s"]
  by (cases s) (simp_all add: parseFloat_def)

lemma string_of_nat_hd: "is_digit (hd (string_of_nat n @ rest))"
  using string_of_nat_nonempty [of n] string_of_nat_digits [of "hd (string_of_nat n)" n]
  by (cases "string_of_nat n") simp_all

lemma parseFloat_nat: "parseFloat (string_of_nat a) = Some (of_nat a)"
  using parseFloat_digit_first [of "string_of_nat a"] string_of_nat_hd [of a "[]"]
  by (simp add: string_of_nat_nonempty parse_unsigned_nat)

lemma parseFloat_frac:
  assumes "\<And>c. c \<in> set fs \<Longrightarrow> is_digit c"
  shows "parseFloat (string_of_nat a @ CHR ''.'' # fs)
           = Some (of_nat a + of_nat (digits_value fs) / 10 ^ length fs)"
  using parseFloat_digit_first [of "string_of_nat a @ CHR ''.'' # fs"]
    string_of_nat_hd [of a "CHR ''.'' # fs"] parse_unsigned_frac [OF assms]
  by simp

lemma cents_split: "(of_nat n :: rat) / 100 = of_nat (n div 100) + of_nat (n mod 100) / 100"
proof -
  have "(of_nat n :: rat) = of_nat (100 * (n div 100) + n mod 100)" by simp
  also have "\<dots> = 100 * of_nat (n div 100) + of_nat (n mod 100)"
    by (simp only: of_nat_add of_nat_mult of_nat_numeral)
  finally show ?thesis by (simp add: add_divide_distrib)
qed

lemma parseFloat_toFixed2:
  assumes "0 \<le> x"
  shows "parseFloat (toFixed2 x) = Some (of_nat (nat \<lfloor>x * 100 + 1 / 2\<rfloor>) / 100)"
proof -
  define n where "n = nat \<lfloor>x * 100 + 1 / 2\<rfloor>"
  have tf: "toFixed2 x = string_of_nat (n div 100) @ CHR ''.'' #
              [digit_char (n mod 100 div 10), digit_char (n mod 10)]"
    using assms by (simp add: toFixed2_def n_def Let_def)
  have dv: "digits_value [digit_char (n mod 100 div 10), digit_char (n mod 10)] = n mod 100"
  proof -
    have "n mod 100 div 10 < 10" by simp
    then have "digits_value [digit_char (n mod 100 div 10), digit_char (n mod 10)]
                 = 10 * (n mod 100 div 10) + n mod 10"
      by (simp add: digits_value_def digit_char_props)
    moreover have "n mod 10 = n mod 100 mod 10" by (simp add: mod_mod_cancel)
    moreover have "10 * (n mod 100 div 10) + n mod 100 mod 10 = n mod 100" by simp
    ultimately show ?thesis by (simp only:)
  qed
  have "parseFloat (toFixed2 x) = Some (of_nat (n div 100) + of_nat (n mod 100) / 100)"
    unfolding tf
    by (subst parseFloat_frac) (auto simp: digit_char_props dv)
  then have "parseFloat (toFixed2 x) = Some (of_nat n / 100)"
    by (simp only: cents_split [of n])
  then show ?thesis by (simp only: n_def)
qed

lemma parseFloat_string_of_number:
  assumes "0 \<le> y"
  shows "parseFloat (string_of_number y) = Some (of_nat (nat \<lfloor>y * 100 + 1 / 2\<rfloor>) / 100)"
proof -
  define n where "n = nat \<lfloor>y * 100 + 1 / 2\<rfloor>"
  have sn: "string_of_number y =
          string_of_nat (n div 100)
         @ (if n mod 100 = 0 then ''''
            else if n mod 100 mod 10 = 0 then ''.'' @ [digit_char (n mod 100 div 10)]
            else ''.'' @ [digit_char (n mod 100 div 10), digit_char (n mod 100 mod 10)])"
    using assms by (simp add: string_of_number_def n_def Let_def)
  have lt: "n mod 100 div 10 < 10" by simp
  consider (a) "n mod 100 = 0" | (b) "n mod 100 \<noteq> 0" "n mod 100 mod 10 = 0"
    | (c) "n mod 100 \<noteq> 0" "n mod 100 mod 10 \<noteq> 0" by blast
  then have "parseFloat (string_of_number y) = Some (of_nat (n div 100) + of_nat (n mod 100) / 100)"
  proof cases
    case a
    then show ?thesis by (simp add: sn parseFloat_nat)
  next
    case b
    have "n mod 100 = 10 * (n mod 100 div 10) + n mod 100 mod 10" by simp
    then have m: "n mod 100 = 10 * (n mod 100 div 10)" using b(2) by simp
    have "parseFloat (string_of_nat (n div 100) @ CHR ''.'' # [digit_char (n mod 100 div 10)])
            = Some (of_nat (n div 100) + of_nat (n mod 100 div 10) / 10)"
      using lt by (subst parseFloat_frac) (auto simp: digit_char_props digits_value_def)
    moreover have "(of_nat (n mod 100) :: rat) / 100 = of_nat (n mod 100 div 10) / 10"
      by (subst m) simp
    ultimately show ?thesis using b by (simp add: sn)
  next
    case c
    have m: "10 * (n mod 100 div 10) + n mod 100 mod 10 = n mod 100" by simp
    have "parseFloat (string_of_nat (n div 100) @ CHR ''.'' #
             [digit_char (n mod 100 div 10), digit_char (n mod 100 mod 10)])
            = Some (of_nat (n div 100) + of_nat (n mod 100) / 100)"
      using lt by (subst parseFloat_frac) (auto simp: digit_char_props digits_value_def m)
    then show ?thesis using c by (simp add: sn)
  qed
  then have "parseFloat (string_of_number y) = Some (of_nat n / 100)"
    by (simp only: cents_split [of n])
  then show ?thesis by (simp only: n_def)
qed


section \<open>Rounding to doubles\<close>

lemma rne_near: "\<bar>of_int (rne y) - y\<bar> \<le> 1 / 2"
proof -
  have "of_int \<lfloor>y\<rfloor> \<le> y" "y < of_int \<lfloor>y\<rfloor> + 1" by linarith+
  then show ?thesis by (auto simp: rne_def Let_def abs_le_iff)
qed

lemma rne_of_int: "rne (of_int k) = k"
  by (simp add: rne_def)

lemma rne_nonneg: "0 \<le> y \<Longrightarrow> 0 \<le> rne y"
  by (auto simp: rne_def Let_def)

lemma expo_ge1_bounds:
  "1 \<le> x \<Longrightarrow> 2 powi expo_ge1 x \<le> x \<and> x < 2 powi (expo_ge1 x + 1)"
proof (induction x rule: expo_ge1.induct)
  case (1 x)
  show ?case
  proof (cases "x < 2")
    case True
    then show ?thesis using "1.prems" by (simp add: expo_ge1.simps [of x])
  next
    case False
    then have "1 \<le> x / 2" by simp
    from "1.IH" [OF False this]
    have "2 powi expo_ge1 (x / 2) * 2 \<le> x" "x < 2 powi (expo_ge1 (x / 2) + 1) * 2"
      by simp_all
    then show ?thesis
      using False by (simp add: expo_ge1.simps [of x] power_int_add)
  qed
qed

lemma expo_lt1_bounds:
  "0 < x \<Longrightarrow> x < 1 \<Longrightarrow> 2 powi expo_lt1 x \<le> x \<and> x < 2 powi (expo_lt1 x + 1)"
proof (induction x rule: expo_lt1.induct)
  case (1 x)
  have n: "\<not> (x \<le> 0 \<or> 1 \<le> x)" using "1.prems" by simp
  show ?case
  proof (cases "x * 2 < 1")
    case True
    from "1.IH" [OF n _ True] "1.prems"
    have "2 powi expo_lt1 (x * 2) \<le> x * 2" "x * 2 < 2 powi (expo_lt1 (x * 2) + 1)"
      by simp_all
    then show ?thesis
      using n by (simp add: expo_lt1.simps [of x] power_int_add power_int_diff)
  next
    case False
    then have "expo_lt1 (x * 2) = 0" by (simp add: expo_lt1.simps [of "x * 2"])
    then show ?thesis
      using n False "1.prems" by (simp add: expo_lt1.simps [of x] power_int_minus)
  qed
qed

lemma expo_bounds:
  assumes "0 < x"
  shows "2 powi expo x \<le> x" "x < 2 powi (expo x + 1)"
  using assms expo_ge1_bounds [of x] expo_lt1_bounds [of x]
  by (auto simp: expo_def)

lemma expo_unique:
  assumes "2 powi e \<le> x" "x < 2 powi (e + 1)"
  shows "expo x = e"
proof -
  have "(0::rat) < 2 powi e" by simp
  with assms(1) have x: "0 < x" by linarith
  note b = expo_bounds [OF x]
  have "2 powi e < (2::rat) powi (expo x + 1)" using assms(1) b(2) by simp
  then have 1: "e < expo x + 1"
    by (metis not_le power_int_increasing one_le_numeral not_less)
  have "2 powi expo x < (2::rat) powi (e + 1)" using assms(2) b(1) by simp
  then have 2: "expo x < e + 1"
    by (metis not_le power_int_increasing one_le_numeral not_less)
  from 1 2 show ?thesis by simp
qed

lemma double_pos_eq:
  assumes "2 powi e \<le> x" "x < 2 powi (e + 1)"
  shows "double x = of_int (rne (x / 2 powi (e - 52))) * 2 powi (e - 52)"
proof -
  have "(0::rat) < 2 powi e" by simp
  with assms(1) have x: "0 < x" by linarith
  then show ?thesis using expo_unique [OF assms] by (simp add: double_def Let_def)
qed

lemma double_minus: "double (- x) = - double x"
  by (simp add: double_def Let_def)

lemma double_error:
  "\<bar>double x - x\<bar> \<le> \<bar>x\<bar> / 2 ^ 53"
proof (cases "x = 0")
  case True
  then show ?thesis by (simp add: double_def)
next
  case False
  define a where "a = \<bar>x\<bar>"
  define e where "e = expo a"
  define ulp :: rat where "ulp = 2 powi (e - 52)"
  have a: "0 < a" using False by (simp add: a_def)
  have ulp: "0 < ulp" by (simp add: ulp_def)
  have d: "double x = sgn x * (of_int (rne (a / ulp)) * ulp)"
    using False by (simp add: double_def Let_def a_def e_def ulp_def)
  have "x = sgn x * a" by (simp add: a_def sgn_mult_abs)
  then have "double x - x = sgn x * (of_int (rne (a / ulp)) * ulp - a)"
    by (simp add: d algebra_simps)
  then have "\<bar>double x - x\<bar> = \<bar>of_int (rne (a / ulp)) * ulp - a\<bar>"
    using False by (simp add: abs_mult abs_sgn_eq)
  also have "of_int (rne (a / ulp)) * ulp - a = (of_int (rne (a / ulp)) - a / ulp) * ulp"
    using ulp by (simp add: algebra_simps)
  also have "\<bar>\<dots>\<bar> \<le> 1 / 2 * ulp"
    using rne_near [of "a / ulp"] ulp by (simp add: abs_mult mult_right_mono)
  also have "1 / 2 * ulp = 2 powi e / 2 ^ 53"
    by (simp add: ulp_def power_int_diff)
  also have "\<dots> \<le> a / 2 ^ 53"
    using expo_bounds(1) [OF a] by (simp add: e_def divide_right_mono)
  finally show ?thesis by (simp add: a_def)
qed

lemma double_of_int:
  assumes "\<bar>c\<bar> < 2 ^ 53"
  shows "double (of_int c) = of_int c"
proof (cases "c = 0")
  case True
  then show ?thesis by (simp add: double_def)
next
  case False
  define a :: rat where "a = \<bar>of_int c\<bar>"
  define e where "e = expo a"
  have a: "0 < a" "a = of_int \<bar>c\<bar>" using False by (simp_all add: a_def)
  note b = expo_bounds [OF a(1)]
  have "a < 2 powi 53" using assms by (simp add: a(2))
  with b(1) have "(2::rat) powi e < 2 powi 53" by (simp add: e_def)
  then have "e < 53"
    by (metis not_le power_int_increasing one_le_numeral not_less)
  then have e: "0 \<le> 52 - e" by simp
  define k where "k = nat (52 - e)"
  have ulp: "(2::rat) powi (e - 52) = 1 / 2 ^ k"
    using e by (simp add: k_def power_int_def field_simps)
  have "a / (2 powi (e - 52)) = of_int (\<bar>c\<bar> * 2 ^ k)"
    by (simp add: ulp a(2))
  then have "of_int (rne (a / (2 powi (e - 52)))) * 2 powi (e - 52) = a"
    by (simp only: rne_of_int) (simp add: ulp a(2))
  then have "double (of_int c) = sgn (of_int c) * a"
    using False by (simp add: double_def Let_def a_def [symmetric] e_def [symmetric])
  then show ?thesis by (simp add: a_def sgn_mult_abs)
qed

lemma double_nonneg: "0 \<le> x \<Longrightarrow> 0 \<le> double x"
  by (auto simp: double_def Let_def rne_nonneg sgn_if)

lemma double_pos:
  assumes "0 < x" shows "0 < double x"
proof -
  have "\<bar>double x - x\<bar> \<le> x / 2 ^ 53" using double_error [of x] assms by simp
  moreover have "x / 2 ^ 53 < x" using assms by (simp add: field_simps)
  ultimately show ?thesis by linarith
qed


section \<open>Converting between counts and amounts\<close>

lemma denominationFields_distinct: "distinct denominationFields"
  by (simp add: denominationFields_def denominations_bills_def denominations_coins_def)

lemma denominationValues_pos:
  assumes "denominationValues fid = Some d"
  shows "0 < d \<and> is_cents d"
proof -
  let ?table = "[(''bill-100'', 100), (''bill-50'', 50), (''bill-20'', 20), (''bill-10'', 10),
             (''bill-5'', 5), (''coin-2'', 2), (''coin-1'', 1), (''coin-0-5'', 1 / 2),
             (''coin-0-2'', 1 / 5), (''coin-0-1'', 1 / 10), (''coin-0-05'', 1 / 20 :: rat)]"
  have "list_all (\<lambda>(k, d). 0 < d \<and> is_cents d) ?table"
    by (simp add: is_cents_def)
  moreover have "(fid, d) \<in> set ?table"
    using assms unfolding denominationValues_def by (rule map_of_SomeD)
  ultimately show ?thesis unfolding list_all_iff by blast
qed

lemma denominationFields_value:
  assumes "fid \<in> set denominationFields"
  shows "\<exists>d. denominationValues fid = Some d"
proof -
  have "list_all (\<lambda>fid. case denominationValues fid of None \<Rightarrow> False | Some d \<Rightarrow> True)
          denominationFields"
    by (simp add: denominationFields_def denominations_bills_def denominations_coins_def
        denominationValues_def)
  then show ?thesis using assms by (auto simp: list_all_iff split: option.splits)
qed

lemma fold_convert:
  assumes "distinct ids"
  shows "cachedInputs (fold (\<lambda>fid s. s\<lparr>cachedInputs :=
            (cachedInputs s)(fid := convertValue m fid (cachedInputs s fid))\<rparr>) ids st) x
         = (if x \<in> set ids then convertValue m x (cachedInputs st x) else cachedInputs st x)"
  using assms
proof (induction ids arbitrary: st)
  case Nil
  show ?case by simp
next
  case (Cons a ids)
  then show ?case by auto
qed

lemma toggle_field:
  assumes "fid \<in> set denominationFields" "isCountMode st \<noteq> m"
  shows "cachedInputs (toggleInputMode m st) fid = convertValue m fid (cachedInputs st fid)"
  using assms by (simp add: toggleInputMode_def fold_convert [OF denominationFields_distinct])

lemma fold_convert_mode:
  "isCountMode (fold (\<lambda>fid s. s\<lparr>cachedInputs :=
            (cachedInputs s)(fid := convertValue m fid (cachedInputs s fid))\<rparr>) ids st)
     = isCountMode st"
  by (induction ids arbitrary: st) simp_all

lemma toggle_mode: "isCountMode (toggleInputMode m st) = m"
  by (auto simp: toggleInputMode_def)

lemma denominationValues_range:
  assumes "denominationValues fid = Some d"
  shows "1 / 20 \<le> d \<and> d \<le> 100"
proof -
  let ?table = "[(''bill-100'', 100), (''bill-50'', 50), (''bill-20'', 20), (''bill-10'', 10),
             (''bill-5'', 5), (''coin-2'', 2), (''coin-1'', 1), (''coin-0-5'', 1 / 2),
             (''coin-0-2'', 1 / 5), (''coin-0-1'', 1 / 10), (''coin-0-05'', 1 / 20 :: rat)]"
  have "list_all (\<lambda>(k, d). 1 / 20 \<le> d \<and> d \<le> 100) ?table"
    by simp
  moreover have "(fid, d) \<in> set ?table"
    using assms unfolding denominationValues_def by (rule map_of_SomeD)
  ultimately show ?thesis unfolding list_all_iff by blast
qed

lemma round_near:
  fixes x :: rat
  assumes "\<bar>x - of_int k\<bar> < 1 / 2"
  shows "\<lfloor>x + 1 / 2\<rfloor> = k"
proof (rule floor_unique)
  show "of_int k \<le> x + 1 / 2" using assms by linarith
  show "x + 1 / 2 < of_int k + 1" using assms by linarith
qed

lemma cents_near:
  fixes x p :: rat
  assumes "0 \<le> k" "p * 100 = of_int k" "\<bar>x * 100 - p * 100\<bar> < 1 / 2"
  shows "of_nat (nat \<lfloor>x * 100 + 1 / 2\<rfloor>) / 100 = p"
proof -
  have "\<lfloor>x * 100 + 1 / 2\<rfloor> = k"
    using assms(3) unfolding assms(2) by (rule round_near)
  then have "(of_nat (nat \<lfloor>x * 100 + 1 / 2\<rfloor>) :: rat) = p * 100"
    using assms(1) by (simp add: assms(2))
  then show ?thesis by simp
qed

lemma double_error_num: "\<bar>double x - x\<bar> \<le> \<bar>x\<bar> / 9007199254740992"
  using double_error [of x] by simp

lemma double_count:
  assumes "0 \<le> c" "c \<le> 100000000000"
  shows "double (of_int c) = of_int c"
  using assms by (intro double_of_int) simp

text \<open>The doubles of one conversion: the face value, the product and the amount.\<close>

lemma product_error:
  fixes d :: rat
  assumes d: "1 / 20 \<le> d" "d \<le> 100" and c: "0 \<le> c" "c \<le> 100000000000"
  defines "p \<equiv> of_int c * d"
  shows "0 \<le> p" "p \<le> 10000000000000"
    "\<bar>of_int c * double d - p\<bar> \<le> p / 9007199254740992"
    "\<bar>double (of_int c * double d) - p\<bar> \<le> 3 * p / 9007199254740992"
    "\<bar>double p - p\<bar> \<le> p / 9007199254740992"
proof -
  define cr :: rat where "cr = of_int c"
  have cr: "0 \<le> cr" "cr \<le> 100000000000" using c by (simp_all add: cr_def)
  have p: "p = cr * d" by (simp add: p_def cr_def)
  show p0: "0 \<le> p" using cr(1) d(1) by (simp add: p)
  have "cr * d \<le> 100000000000 * d" using cr(2) d(1) by (intro mult_right_mono) simp_all
  then show p1: "p \<le> 10000000000000" using d(2) by (simp add: p)
  have "\<bar>double d - d\<bar> \<le> d / 9007199254740992" using double_error_num [of d] d(1) by simp
  then have "cr * \<bar>double d - d\<bar> \<le> cr * (d / 9007199254740992)"
    using cr(1) by (rule mult_left_mono)
  moreover have "\<bar>cr * (double d - d)\<bar> = cr * \<bar>double d - d\<bar>"
    using cr(1) by (simp add: abs_mult)
  moreover have "cr * (double d - d) = cr * double d - p"
    by (simp add: p algebra_simps)
  ultimately have e1: "\<bar>cr * double d - p\<bar> \<le> p / 9007199254740992" by (simp add: p)
  then show "\<bar>of_int c * double d - p\<bar> \<le> p / 9007199254740992" by (simp add: cr_def)
  have "0 \<le> double d" using d(1) by (intro double_nonneg) simp
  then have q0: "0 \<le> cr * double d" using cr(1) by simp
  have e2: "\<bar>double (cr * double d) - cr * double d\<bar> \<le> cr * double d / 9007199254740992"
    using double_error_num [of "cr * double d"] q0 by simp
  have "\<bar>double (cr * double d) - p\<bar> \<le> 3 * p / 9007199254740992"
    using e1 e2 p0 unfolding abs_le_iff by linarith
  then show "\<bar>double (of_int c * double d) - p\<bar> \<le> 3 * p / 9007199254740992"
    by (simp add: cr_def)
  show "\<bar>double p - p\<bar> \<le> p / 9007199254740992"
    using double_error_num [of p] p0 by simp
qed


lemma count_to_amount:
  assumes "denominationValues fid = Some d" "0 \<le> c" "c \<le> 100000000000"
    and "parseFloat v = Some (of_int c)"
  shows "parseFloat (convertValue False fid v) = Some (of_int c * d)"
proof (cases "c = 0")
  case True
  then show ?thesis using assms by (auto simp: convertValue_def parseFloat64_def double_def)
next
  case False
  define p where "p = of_int c * d"
  have d: "1 / 20 \<le> d" "d \<le> 100" using denominationValues_range [OF assms(1)] by simp_all
  have "is_cents d" using denominationValues_pos [OF assms(1)] by simp
  then obtain m :: int where m: "d * 100 = of_int m" by (auto simp: is_cents_iff)
  have "0 \<le> d * 100" using d(1) by simp
  then have m0: "0 \<le> m" by (simp add: m)
  have k: "p * 100 = of_int (c * m)" using m by (simp add: p_def)
  have k0: "0 \<le> c * m" using assms(2) m0 by simp
  note e = product_error [OF d assms(2,3), folded p_def]
  define amount where "amount = double (of_int c * double d)"
  have "0 \<le> double d" using d(1) by (intro double_nonneg) simp
  then have "0 \<le> of_int c * double d" using assms(2) by simp
  then have am0: "0 \<le> amount" unfolding amount_def by (rule double_nonneg)
  have "\<bar>amount * 100 - p * 100\<bar> < 1 / 2"
    using e(1,2,4) unfolding amount_def abs_le_iff abs_less_iff by linarith
  then have "of_nat (nat \<lfloor>amount * 100 + 1 / 2\<rfloor>) / 100 = p"
    by (rule cents_near [OF k0 k])
  then have tf: "parseFloat (toFixed2 amount) = Some p"
    using parseFloat_toFixed2 [OF am0] by simp
  have a0: "0 \<le> double p" using e(1) by (rule double_nonneg)
  have "\<bar>double p * 100 - p * 100\<bar> < 1 / 2"
    using e(1,2,5) unfolding abs_le_iff abs_less_iff by linarith
  then have "of_nat (nat \<lfloor>double p * 100 + 1 / 2\<rfloor>) / 100 = p"
    by (rule cents_near [OF k0 k])
  then have sn: "parseFloat (string_of_number (double p)) = Some p"
    using parseFloat_string_of_number [OF a0] by simp
  have v: "v \<noteq> []" using assms(4) by (auto simp: parseFloat_def)
  have val: "parseFloat64 v = Some (of_int c)"
    using assms(4) double_count [OF assms(2,3)] by (simp add: parseFloat64_def)
  have "parseFloat64 (toFixed2 amount) = Some (double p)"
    using tf by (simp add: parseFloat64_def)
  then have "convertValue False fid v = string_of_number (double p)"
    using False v val assms(1) unfolding amount_def
    by (simp add: convertValue_def Let_def)
  then show ?thesis using sn by (simp add: p_def)
qed

lemma amount_to_count:
  assumes "denominationValues fid = Some d" "0 \<le> c" "c \<le> 100000000000"
    and "parseFloat v = Some (of_int c * d)"
  shows "parseFloat (convertValue True fid v) = Some (of_int c)"
proof (cases "c = 0")
  case True
  then show ?thesis using assms by (auto simp: convertValue_def parseFloat64_def double_def)
next
  case False
  define p where "p = of_int c * d"
  define cr :: rat where "cr = of_int c"
  define D where "D = double d"
  define a where "a = double p"
  define w where "w = a / D"
  have d: "1 / 20 \<le> d" "d \<le> 100" using denominationValues_range [OF assms(1)] by simp_all
  have cr: "1 \<le> cr" "cr \<le> 100000000000" using assms(2,3) False by (simp_all add: cr_def)
  note e = product_error [OF d assms(2,3), folded p_def, folded cr_def D_def a_def]
  have "0 < cr * d" using cr(1) d(1) by (intro mult_pos_pos) simp_all
  then have p0: "0 < p" by (simp add: p_def cr_def)
  have a0: "0 < a" unfolding a_def using p0 by (rule double_pos)
  have D0: "0 < D" unfolding D_def using d(1) by (intro double_pos) simp
  have 1: "\<bar>a - cr * D\<bar> \<le> 2 * p / 9007199254740992"
    using e(3,5) unfolding abs_le_iff by linarith
  have "p \<le> 2 * (cr * D)" using e(1,3) unfolding abs_le_iff by linarith
  with 1 have "\<bar>a - cr * D\<bar> \<le> 4 * cr / 9007199254740992 * D" by simp
  then have "\<bar>a - cr * D\<bar> / D \<le> 4 * cr / 9007199254740992"
    using D0 by (simp add: pos_divide_le_eq)
  moreover have "\<bar>a - cr * D\<bar> / D = \<bar>a / D - cr\<bar>"
  proof -
    have "a / D - cr = (a - cr * D) / D" using D0 by (simp add: field_simps)
    then show ?thesis using D0 by (simp add: abs_divide)
  qed
  ultimately have 2: "\<bar>w - cr\<bar> \<le> 4 * cr / 9007199254740992" by (simp add: w_def)
  have w0: "0 < w" using a0 D0 by (simp add: w_def)
  have 3: "\<bar>double w - w\<bar> \<le> w / 9007199254740992"
    using double_error_num [of w] w0 by simp
  have "\<bar>double w - cr\<bar> < 1 / 2"
    using 2 3 cr unfolding abs_le_iff abs_less_iff by linarith
  then have "\<lfloor>double w + 1 / 2\<rfloor> = c" unfolding cr_def by (rule round_near)
  then have r: "Math_round (double (a / D)) = c" by (simp add: Math_round_def w_def)
  have v: "v \<noteq> []" using assms(4) by (auto simp: parseFloat_def)
  have val: "parseFloat64 v = Some a"
    using assms(4) by (simp add: parseFloat64_def a_def p_def)
  have cv: "convertValue True fid v = string_of_number (of_int c)"
    using v val assms(1) a0 r
    by (simp add: convertValue_def Let_def D_def [symmetric])
  have "(0::rat) \<le> of_int c" using assms(2) by simp
  moreover have "of_nat (nat \<lfloor>(of_int c :: rat) * 100 + 1 / 2\<rfloor>) / 100 = (of_int c :: rat)"
  proof (rule cents_near)
    show "0 \<le> c * 100" using assms(2) by simp
    show "(of_int c :: rat) * 100 = of_int (c * 100)" by simp
    show "\<bar>(of_int c :: rat) * 100 - of_int c * 100\<bar> < 1 / 2" by simp
  qed
  ultimately show ?thesis
    using parseFloat_string_of_number [of "of_int c"] by (simp add: cv)
qed

lemma double_fifth: "double (1 / 5) = 3602879701896397 / 18014398509481984"
  using double_pos_eq [of "- 3" "1 / 5"]
  by (simp add: rne_def Let_def floor_rat_numeral_div)

lemma double_small_ints: "double 7 = 7" "double 100 = 100"
  using double_of_int [of 7] double_of_int [of 100] by simp_all

lemma double_7_fifths:
  "double (25220157913274779 / 18014398509481984) = 6305039478318695 / 4503599627370496"
  "double (7 / 5) = 3152519739159347 / 2251799813685248"
  using double_pos_eq [of 0 "25220157913274779 / 18014398509481984"]
    double_pos_eq [of 0 "7 / 5"]
  by (simp_all add: rne_def Let_def floor_rat_numeral_div)

lemma double_2_53:
  "double 9007199254740993 = 9007199254740992"
  "double 9007199254740992 = 9007199254740992"
  "double 900719925474099200 = 900719925474099200"
  using double_pos_eq [of 53 9007199254740993] double_pos_eq [of 53 9007199254740992]
    double_pos_eq [of 59 900719925474099200]
  by (simp_all add: rne_def Let_def floor_rat_numeral_div)

lemma convert_seven:
  "convertValue False ''coin-0-2'' ''7'' = ''1.4''"
proof -
  have "parseFloat64 ''7'' = Some 7"
    by (simp add: parseFloat64_def parse_eval double_small_ints)
  moreover have "toFixed2 (6305039478318695 / 4503599627370496) = ''1.40''"
    by (simp add: print_eval floor_rat_numeral_div)
  moreover have "parseFloat64 ''1.40'' = Some (3152519739159347 / 2251799813685248)"
    by (simp add: parseFloat64_def parse_eval double_7_fifths)
  moreover have "string_of_number (3152519739159347 / 2251799813685248) = ''1.4''"
    by (simp add: string_of_number_def Let_def print_eval floor_rat_numeral_div)
  ultimately show ?thesis
    by (simp add: convertValue_def Let_def denominationValues_def double_fifth double_7_fifths)
qed

lemma convert_big:
  "convertValue False ''bill-100'' ''9007199254740993'' = ''900719925474099200''"
  "convertValue True ''bill-100'' ''900719925474099200'' = ''9007199254740992''"
proof -
  have 1: "parseFloat64 ''9007199254740993'' = Some 9007199254740992"
    by (simp add: parseFloat64_def parse_eval double_2_53)
  have 2: "toFixed2 900719925474099200 = ''900719925474099200.00''"
    by (simp add: print_eval)
  have 3: "parseFloat64 ''900719925474099200.00'' = Some 900719925474099200"
    by (simp add: parseFloat64_def parse_eval double_2_53)
  have 4: "string_of_number 900719925474099200 = ''900719925474099200''"
    by (simp add: string_of_number_def Let_def print_eval)
  show "convertValue False ''bill-100'' ''9007199254740993'' = ''900719925474099200''"
    using 1 2 3 4
    by (simp add: convertValue_def Let_def denominationValues_def double_small_ints double_2_53)
  have 5: "parseFloat64 ''900719925474099200'' = Some 900719925474099200"
    by (simp add: parseFloat64_def parse_eval double_2_53)
  have 6: "string_of_number (of_int 9007199254740992) = ''9007199254740992''"
    by (simp add: string_of_number_def Let_def print_eval)
  have 7: "Math_round 9007199254740992 = 9007199254740992"
    by (simp add: Math_round_def floor_rat_numeral_div)
  show "convertValue True ''bill-100'' ''900719925474099200'' = ''9007199254740992''"
    using 5 6 7
    by (simp add: convertValue_def Let_def denominationValues_def double_small_ints double_2_53)
qed

lemma convert_big_coin:
  "convertValue False ''coin-1'' ''9007199254740993'' = ''9007199254740992''"
  "convertValue True ''coin-1'' ''9007199254740992'' = ''9007199254740992''"
proof -
  have 0: "double 1 = 1" using double_of_int [of 1] by simp
  have 1: "parseFloat64 ''9007199254740993'' = Some 9007199254740992"
    by (simp add: parseFloat64_def parse_eval double_2_53)
  have 2: "toFixed2 9007199254740992 = ''9007199254740992.00''"
    by (simp add: print_eval)
  have 3: "parseFloat64 ''9007199254740992.00'' = Some 9007199254740992"
    by (simp add: parseFloat64_def parse_eval double_2_53)
  have 4: "string_of_number 9007199254740992 = ''9007199254740992''"
    by (simp add: print_eval)
  show "convertValue False ''coin-1'' ''9007199254740993'' = ''9007199254740992''"
    using 1 2 3 4
    by (simp add: convertValue_def Let_def denominationValues_def 0 double_2_53)
  have 5: "parseFloat64 ''9007199254740992'' = Some 9007199254740992"
    by (simp add: parseFloat64_def parse_eval double_2_53)
  have 6: "string_of_number (of_int 9007199254740992) = ''9007199254740992''"
    by (simp add: print_eval)
  have 7: "Math_round 9007199254740992 = 9007199254740992"
    by (simp add: Math_round_def floor_rat_numeral_div)
  show "convertValue True ''coin-1'' ''9007199254740992'' = ''9007199254740992''"
    using 5 6 7
    by (simp add: convertValue_def Let_def denominationValues_def 0 double_2_53)
qed

text \<open>
  Claim C3, with a bound on the count. For every denomination field and every integer count
  \<open>c\<close> from 0 to \<open>10 ^ 11\<close> in it, in count mode: switching to amount mode leaves the
  numeral of \<open>c\<close> times the face value in the field (the product of the two doubles is
  within half a cent of it, so \<open>toFixed(2)\<close> writes it), and switching back to count mode
  leaves exactly \<open>c\<close> again (the quotient of the two doubles rounds to \<open>c\<close>).
\<close>

theorem C3_count_amount_count:
  assumes "fid \<in> set denominationFields" "0 \<le> c" "c \<le> 100000000000" "isCountMode st"
    and "parseFloat (cachedInputs st fid) = Some (of_int c)"
  shows "\<exists>d. denominationValues fid = Some d \<and>
           parseFloat (cachedInputs (toggleInputMode False st) fid) = Some (of_int c * d) \<and>
           parseFloat (cachedInputs (toggleInputMode True (toggleInputMode False st)) fid)
             = Some (of_int c)"
proof -
  from denominationFields_value [OF assms(1)] obtain d where d: "denominationValues fid = Some d" ..
  have 1: "cachedInputs (toggleInputMode False st) fid = convertValue False fid (cachedInputs st fid)"
    using assms(1,4) by (simp add: toggle_field)
  have 2: "cachedInputs (toggleInputMode True (toggleInputMode False st)) fid
             = convertValue True fid (cachedInputs (toggleInputMode False st) fid)"
    using assms(1) by (simp add: toggle_field toggle_mode)
  have a: "parseFloat (cachedInputs (toggleInputMode False st) fid) = Some (of_int c * d)"
    unfolding 1 by (rule count_to_amount [OF d assms(2,3,5)])
  have "parseFloat (cachedInputs (toggleInputMode True (toggleInputMode False st)) fid)
          = Some (of_int c)"
    unfolding 2 by (rule amount_to_count [OF d assms(2,3) a])
  with d a show ?thesis by blast
qed

theorem C3_count_amount_count_witness:
  "cachedInputs (toggleInputMode False
      (empty_state\<lparr>isCountMode := True,
         cachedInputs := (cachedInputs empty_state)(''coin-0-2'' := ''7'')\<rparr>)) ''coin-0-2''
     = ''1.4'' \<and>
   parseFloat (cachedInputs (toggleInputMode True (toggleInputMode False
      (empty_state\<lparr>isCountMode := True,
         cachedInputs := (cachedInputs empty_state)(''coin-0-2'' := ''7'')\<rparr>))) ''coin-0-2'')
     = Some 7"
proof -
  let ?st = "empty_state\<lparr>isCountMode := True,
         cachedInputs := (cachedInputs empty_state)(''coin-0-2'' := ''7'')\<rparr>"
  have f: "''coin-0-2'' \<in> set denominationFields"
    by (simp add: denominationFields_def denominations_bills_def denominations_coins_def)
  have p: "parseFloat (cachedInputs ?st ''coin-0-2'') = Some (of_int 7)"
    by (simp add: parse_eval)
  have a: "cachedInputs (toggleInputMode False ?st) ''coin-0-2'' = ''1.4''"
    by (simp add: toggle_field [OF f] convert_seven)
  from C3_count_amount_count [OF f _ _ _ p] a show ?thesis by auto
qed

text \<open>
  Claim C3 as stated, for every count, fails: 9007199254740993, which is \<open>2 ^ 53 + 1\<close>, is
  no double, so the script already reads 9007199254740992 from the field, of the 100 bill
  or of the 1 coin, and after the two switches the field holds that number and not the
  count it held.
\<close>

theorem C3_count_amount_count_counterexample:
  "isCountMode large_counts \<and>
   parseFloat (cachedInputs large_counts ''bill-100'') = Some 9007199254740993 \<and>
   parseFloat (cachedInputs large_counts ''coin-1'') = Some 9007199254740993 \<and>
   cachedInputs (toggleInputMode True (toggleInputMode False large_counts)) ''bill-100''
     = ''9007199254740992'' \<and>
   cachedInputs (toggleInputMode True (toggleInputMode False large_counts)) ''coin-1''
     = ''9007199254740992'' \<and>
   parseFloat ''9007199254740992'' = Some 9007199254740992"
proof -
  have f: "''bill-100'' \<in> set denominationFields" "''coin-1'' \<in> set denominationFields"
    by (simp_all add: denominationFields_def denominations_bills_def denominations_coins_def)
  have m: "isCountMode large_counts" by (simp add: large_counts_def)
  have p: "parseFloat (cachedInputs large_counts ''bill-100'') = Some 9007199254740993"
    "parseFloat (cachedInputs large_counts ''coin-1'') = Some 9007199254740993"
    by (simp_all add: large_counts_def parse_eval)
  have q: "parseFloat ''9007199254740992'' = Some 9007199254740992"
    by (simp add: parse_eval)
  have a: "cachedInputs (toggleInputMode False large_counts) ''bill-100'' = ''900719925474099200''"
    "cachedInputs (toggleInputMode False large_counts) ''coin-1'' = ''9007199254740992''"
    using m by (simp_all add: toggle_field [OF f(1)] toggle_field [OF f(2)]
        convert_big convert_big_coin large_counts_def)
  have "cachedInputs (toggleInputMode True (toggleInputMode False large_counts)) ''bill-100''
          = convertValue True ''bill-100'' (cachedInputs (toggleInputMode False large_counts) ''bill-100'')"
    "cachedInputs (toggleInputMode True (toggleInputMode False large_counts)) ''coin-1''
          = convertValue True ''coin-1'' (cachedInputs (toggleInputMode False large_counts) ''coin-1'')"
    by (simp_all add: toggle_field [OF f(1)] toggle_field [OF f(2)] toggle_mode)
  then have "cachedInputs (toggleInputMode True (toggleInputMode False large_counts)) ''bill-100''
          = ''9007199254740992''"
    "cachedInputs (toggleInputMode True (toggleInputMode False large_counts)) ''coin-1''
          = ''9007199254740992''"
    by (simp_all only: a convert_big convert_big_coin)
  with m p q show ?thesis by simp
qed


section \<open>The derived totals\<close>

text \<open>
  Claim C2. For every state, whatever the mode: the deductions are 1000 plus the exoda
  total plus the plain values of wolt, efood, mypos and eurobank; the cash total is the
  grand total minus the deductions, with no clamping (it is -1000 when nothing is entered);
  the limited cash total is the cash total plus the exoda total; the limited income total
  is the cash total plus the exoda total plus the plain values of mypos and eurobank.
\<close>

theorem C2_derived_totals:
  "deductionsTotal st
     = 1000 + getTotalExoda st + num (cachedInputs st ''wolt'') + num (cachedInputs st ''efood'')
       + num (cachedInputs st ''mypos'') + num (cachedInputs st ''eurobank'') \<and>
   totalExoda (updateTotals st) = getTotalExoda st \<and>
   cashTotal (updateTotals st) = grandTotal (updateTotals st) - deductionsTotal st \<and>
   cashLimTotal (updateTotals st) = cashTotal (updateTotals st) + getTotalExoda st \<and>
   incomeLimTotal (updateTotals st)
     = cashTotal (updateTotals st) + getTotalExoda st
       + num (cachedInputs st ''mypos'') + num (cachedInputs st ''eurobank'') \<and>
   cashTotal (updateTotals empty_state) = - 1000"
proof -
  have e: "getTotalExoda empty_state = 0"
    by (simp add: getTotalExoda_def empty_state_def num_def parseFloat_def)
  have f: "fieldsTotal empty_state = 0"
    by (simp add: fieldsTotal_def empty_state_def num_def parseFloat_def
        denominations_bills_def denominations_coins_def denominations_other_def
        denominationValues_def)
  have n: "num (cachedInputs empty_state k) = 0" for k
    by (simp add: empty_state_def num_def parseFloat_def)
  have d: "deductionsTotal empty_state = 1000"
    by (simp add: deductionsTotal_def deductions_def e n)
  show ?thesis
    by (simp add: deductionsTotal_def deductions_def updateTotals_def Let_def e f n)
qed


section \<open>Validation\<close>

lemma js_rem_floor:
  assumes "0 \<le> a" "0 < b" "of_int k * b \<le> a" "a < (of_int k + 1) * b"
  shows "js_rem a b = a - b * of_int k"
proof -
  have "of_int k \<le> a / b" "a / b < of_int k + 1"
    using assms by (simp_all add: pos_le_divide_eq pos_divide_less_eq)
  then have "\<lfloor>a / b\<rfloor> = k" by (simp add: floor_unique)
  moreover have "\<not> a / b < 0" using assms(1,2) by (simp add: divide_less_0_iff not_less)
  ultimately show ?thesis by (simp add: js_rem_def)
qed

lemma epsilon_bounds:
  "999999 / 1000000000 \<le> double (1 / 1000)" "double (1 / 1000) \<le> 1000001 / 1000000000"
proof -
  have "\<bar>double (1 / 1000) - 1 / 1000\<bar> \<le> \<bar>1 / 1000\<bar> / 2 ^ 53"
    by (rule double_error)
  also have "\<dots> \<le> 1 / 1000000000" by simp
  finally have e: "\<bar>double (1 / 1000) - 1 / 1000\<bar> \<le> 1 / 1000000000" .
  have c: "(1 / 1000 :: rat) - 1 / 1000000000 = 999999 / 1000000000"
    "(1 / 1000 :: rat) + 1 / 1000000000 = 1000001 / 1000000000" by simp_all
  show "999999 / 1000000000 \<le> double (1 / 1000)" using e unfolding c [symmetric] by linarith
  show "double (1 / 1000) \<le> 1000001 / 1000000000" using e unfolding c [symmetric] by linarith
qed

lemma double_near:
  assumes "0 \<le> y" "y \<le> 101"
  shows "\<bar>double y - y\<bar> \<le> 1 / 10000000000000"
proof -
  have "\<bar>double y - y\<bar> \<le> y / 2 ^ 53" using double_error [of y] assms(1) by simp
  also have "\<dots> \<le> 101 / 2 ^ 53" using assms(2) by (simp add: divide_right_mono)
  also have "\<dots> \<le> 1 / 10000000000000" by simp
  finally show ?thesis .
qed

lemma rem_close:
  assumes "0 \<le> x" "x \<le> 1000000000" "1 / 20 \<le> d" "d \<le> 100"
  shows "\<bar>(double x - of_int \<lfloor>x / d\<rfloor> * double d) - js_rem x d\<bar> \<le> 1 / 4000000"
    and "js_rem x d = x - of_int \<lfloor>x / d\<rfloor> * d"
    and "0 \<le> js_rem x d" and "js_rem x d < d"
proof -
  define q where "q = \<lfloor>x / d\<rfloor>"
  have dpos: "0 < d" using assms(3) by simp
  have q0: "0 \<le> q" using assms(1) dpos by (simp add: q_def)
  have qd: "of_int q * d \<le> x" by (rule bill_fits [OF dpos]) (simp add: q_def)
  have "\<not> x / d < 0" using assms(1) dpos by (simp add: divide_less_0_iff not_less)
  then show r: "js_rem x d = x - of_int \<lfloor>x / d\<rfloor> * d"
    by (simp add: js_rem_def mult.commute)
  have "x / d < of_int q + 1" unfolding q_def by linarith
  then have "x < (of_int q + 1) * d" using dpos by (simp add: pos_divide_less_eq)
  then show "0 \<le> js_rem x d" "js_rem x d < d"
    using qd by (simp_all add: r q_def [symmetric] algebra_simps)
  have ex: "\<bar>double x - x\<bar> \<le> x / 2 ^ 53" using double_error [of x] assms(1) by simp
  have ed: "\<bar>double d - d\<bar> \<le> d / 2 ^ 53" using double_error [of d] dpos by simp
  have "\<bar>of_int q * (double d - d)\<bar> = of_int q * \<bar>double d - d\<bar>"
    using q0 by (simp add: abs_mult)
  also have "\<dots> \<le> of_int q * (d / 2 ^ 53)"
    by (rule mult_left_mono [OF ed]) (simp add: q0)
  also have "\<dots> = (of_int q * d) / 2 ^ 53" by simp
  also have "\<dots> \<le> x / 2 ^ 53" using qd by (simp add: divide_right_mono)
  finally have eq: "\<bar>of_int q * (double d - d)\<bar> \<le> x / 2 ^ 53" .
  have "x / 2 ^ 53 \<le> 1000000000 / 2 ^ 53" using assms(2) by (simp add: divide_right_mono)
  also have "\<dots> \<le> (1 / 8000000 :: rat)" by simp
  finally have xu: "x / 2 ^ 53 \<le> 1 / 8000000" .
  have "(double x - of_int q * double d) - js_rem x d
          = (double x - x) - of_int q * (double d - d)"
    by (simp add: r q_def algebra_simps)
  then show "\<bar>(double x - of_int \<lfloor>x / d\<rfloor> * double d) - js_rem x d\<bar> \<le> 1 / 4000000"
    using ex eq xu unfolding q_def [symmetric] by linarith
qed

lemma amount_valid:
  assumes "0 \<le> x" "x \<le> 1000000000" "1 / 20 \<le> d" "d \<le> 100"
    and "js_rem x d \<le> 999 / 1000000 \<or> d - js_rem x d \<le> 999 / 1000000"
  shows "isValidMultiple (double x) (double d)"
proof -
  define q where "q = \<lfloor>x / d\<rfloor>"
  define r where "r = js_rem x d"
  define X where "X = double x"
  define D where "D = double d"
  define E where "E = double (1 / 1000)"
  define T where "T = X - of_int q * D"
  note rc = rem_close [OF assms(1-4), folded q_def r_def X_def D_def]
  have T: "\<bar>T - r\<bar> \<le> 1 / 4000000" unfolding T_def using rc(1) .
  have r: "0 \<le> r" "r < d" using rc(3,4) .
  have X0: "0 \<le> X" unfolding X_def by (rule double_nonneg [OF assms(1)])
  have Dd: "\<bar>D - d\<bar> \<le> 1 / 10000000000000"
    unfolding D_def by (rule double_near) (use assms in simp_all)
  have D0: "0 < D" using Dd assms(3) by linarith
  have E: "999999 / 1000000000 \<le> E" "E \<le> 1000001 / 1000000000"
    unfolding E_def by (rule epsilon_bounds)+
  have valid_if: "R < E \<or> double (D - R) < E \<Longrightarrow> js_rem X D = R \<Longrightarrow> isValidMultiple X D" for R
    by (simp add: isValidMultiple_def Let_def E_def)
  have Tk: "X = T + of_int q * D" by (simp add: T_def)
  from assms(5) consider (lo) "r \<le> 999 / 1000000" | (hi) "d - r \<le> 999 / 1000000"
    unfolding r_def by blast
  then show ?thesis unfolding X_def [symmetric] D_def [symmetric]
  proof cases
    case lo
    show "isValidMultiple X D"
    proof (cases "0 \<le> T")
      case True
      have "T < D" using T lo Dd assms(3) by linarith
      then have "js_rem X D = X - D * of_int q"
        using True by (intro js_rem_floor [OF X0 D0]) (simp_all add: Tk algebra_simps)
      then have "js_rem X D = T" by (simp add: T_def mult.commute)
      moreover have "T < E" using T lo E by linarith
      ultimately show ?thesis using valid_if by blast
    next
      case False
      then have neg: "T < 0" by simp
      have "- T \<le> 1 / 4000000" using T r(1) by linarith
      have a: "of_int (q - 1) * D = of_int q * D - D" "(of_int (q - 1) + 1) * D = of_int q * D"
        by (simp_all add: algebra_simps)
      have "of_int (q - 1) * D \<le> X" unfolding a using neg T r Dd assms(3) Tk by linarith
      moreover have "X < (of_int (q - 1) + 1) * D" unfolding a using neg Tk by linarith
      ultimately have "js_rem X D = X - D * of_int (q - 1)"
        by (rule js_rem_floor [OF X0 D0])
      then have R: "js_rem X D = T + D" by (simp add: T_def algebra_simps)
      have y: "D - (T + D) = - T" by simp
      have "\<bar>double (- T) - (- T)\<bar> \<le> 1 / 10000000000000"
        by (rule double_near) (use neg \<open>- T \<le> 1 / 4000000\<close> in simp_all)
      then have "double (D - (T + D)) < E"
        unfolding y using \<open>- T \<le> 1 / 4000000\<close> E by linarith
      then show ?thesis using valid_if R by blast
    qed
  next
    case hi
    show "isValidMultiple X D"
    proof (cases "T < D")
      case True
      have T0: "0 \<le> T" using T hi assms(3) by linarith
      have "js_rem X D = X - D * of_int q"
        using True T0 by (intro js_rem_floor [OF X0 D0]) (simp_all add: Tk algebra_simps)
      then have R: "js_rem X D = T" by (simp add: T_def mult.commute)
      have y0: "0 \<le> D - T" "D - T \<le> 101" using True T0 Dd assms(4) by linarith+
      have "\<bar>double (D - T) - (D - T)\<bar> \<le> 1 / 10000000000000" by (rule double_near [OF y0])
      moreover have "D - T \<le> 999 / 1000000 + 1 / 10000000000000 + 1 / 4000000"
        using T hi Dd by linarith
      ultimately have "double (D - T) < E" using E by linarith
      then show ?thesis using valid_if R by blast
    next
      case False
      then have ge: "D \<le> T" by simp
      have up: "T - D \<le> 1 / 4000000 + 1 / 10000000000000" using T r(2) Dd by linarith
      have a: "of_int (q + 1) * D = of_int q * D + D"
        "(of_int (q + 1) + 1) * D = of_int q * D + D + D"
        by (simp_all add: algebra_simps)
      have "of_int (q + 1) * D \<le> X" unfolding a using ge Tk by linarith
      moreover have "X < (of_int (q + 1) + 1) * D"
        unfolding a using up Dd assms(3) Tk by linarith
      ultimately have "js_rem X D = X - D * of_int (q + 1)"
        by (rule js_rem_floor [OF X0 D0])
      then have R: "js_rem X D = T - D" by (simp add: T_def algebra_simps)
      have "T - D < E" using up E by linarith
      then show ?thesis using valid_if R by blast
    qed
  qed
qed

lemma amount_invalid:
  assumes "0 \<le> x" "x \<le> 1000000000" "1 / 20 \<le> d" "d \<le> 100"
    and "1001 / 1000000 \<le> js_rem x d" "1001 / 1000000 \<le> d - js_rem x d"
  shows "\<not> isValidMultiple (double x) (double d)"
proof -
  define q where "q = \<lfloor>x / d\<rfloor>"
  define r where "r = js_rem x d"
  define X where "X = double x"
  define D where "D = double d"
  define E where "E = double (1 / 1000)"
  define T where "T = X - of_int q * D"
  note rc = rem_close [OF assms(1-4), folded q_def r_def X_def D_def]
  have T: "\<bar>T - r\<bar> \<le> 1 / 4000000" unfolding T_def using rc(1) .
  have lo: "1001 / 1000000 \<le> r" and hi: "1001 / 1000000 \<le> d - r"
    using assms(5,6) by (simp_all add: r_def)
  have X0: "0 \<le> X" unfolding X_def by (rule double_nonneg [OF assms(1)])
  have Dd: "\<bar>D - d\<bar> \<le> 1 / 10000000000000"
    unfolding D_def by (rule double_near) (use assms in simp_all)
  have D0: "0 < D" using Dd assms(3) by linarith
  have E: "999999 / 1000000000 \<le> E" "E \<le> 1000001 / 1000000000"
    unfolding E_def by (rule epsilon_bounds)+
  have Tk: "X = T + of_int q * D" by (simp add: T_def)
  have T0: "0 \<le> T" using T lo by linarith
  have TD: "T < D" using T hi Dd by linarith
  have "js_rem X D = X - D * of_int q"
    using TD T0 by (intro js_rem_floor [OF X0 D0]) (simp_all add: Tk algebra_simps)
  then have R: "js_rem X D = T" by (simp add: T_def mult.commute)
  have y0: "0 \<le> D - T" "D - T \<le> 101" using TD T0 Dd assms(4) by linarith+
  have "\<bar>double (D - T) - (D - T)\<bar> \<le> 1 / 10000000000000" by (rule double_near [OF y0])
  moreover have "1001 / 1000000 - 1 / 10000000000000 - 1 / 4000000 \<le> D - T"
    using T hi Dd by linarith
  ultimately have "\<not> double (D - T) < E" using E by linarith
  moreover have "\<not> T < E" using T lo E by linarith
  ultimately show ?thesis
    unfolding X_def [symmetric] D_def [symmetric]
    by (simp add: isValidMultiple_def Let_def R E_def)
qed

lemma double_1999: "double (1999 / 1000) = 4501347827556811 / 2251799813685248"
  using double_pos_eq [of 0 "1999 / 1000"]
  by (simp add: rne_def Let_def floor_rat_numeral_div)

lemma double_epsilon: "double (1 / 1000) = 1152921504606847 / 1152921504606846976"
  using double_pos_eq [of "- 10" "1 / 1000"]
  by (simp add: rne_def Let_def floor_rat_numeral_div)

lemma double_gap:
  "double (2251799813685 / 2251799813685248) = 2251799813685 / 2251799813685248"
  using double_pos_eq [of "- 10" "2251799813685 / 2251799813685248"]
  by (simp add: rne_def Let_def floor_rat_numeral_div)

lemma double_2: "double 2 = 2" "double 5 = 5" "double (- 7) = - 7"
  using double_of_int [of 2] double_of_int [of 5] double_of_int [of "- 7"] by simp_all

text \<open>
  Claim C5, as amended. An empty input is valid. A field that is not a denomination is
  valid. A denomination field in count mode is valid exactly when the number parsed from
  it is a non-negative integer. A denomination field in amount mode whose value is a
  numeral \<open>x\<close> with \<open>0 \<le> x \<le> 10^9\<close> is valid when \<open>x\<close> modulo the face value is
  within 0.000999 of 0 or of the face value, and invalid when it is 0.001001 or more away
  from both; one whose value does not parse is valid. In particular 0.19999 is valid for
  the denomination 0.2 in amount mode.
\<close>

theorem C5_validation:
  "validateInput m fid [] = False \<and>
   (denominationValues fid = None \<longrightarrow> validateInput m fid v = False) \<and>
   (denominationValues fid = Some face \<and> v \<noteq> [] \<longrightarrow>
      validateInput True fid v = (\<not> (\<exists>x. parseFloat64 v = Some x \<and> isInteger x \<and> 0 \<le> x))) \<and>
   (denominationValues fid = Some face \<and> v \<noteq> [] \<and> parseFloat v = Some x \<and>
    0 \<le> x \<and> x \<le> 10 ^ 9 \<and>
    (within_eps (999 / 10 ^ 6) (js_rem x face) 0 \<or> within_eps (999 / 10 ^ 6) (js_rem x face) face)
      \<longrightarrow> validateInput False fid v = False) \<and>
   (denominationValues fid = Some face \<and> v \<noteq> [] \<and> parseFloat v = Some x \<and>
    0 \<le> x \<and> x \<le> 10 ^ 9 \<and>
    \<not> within_eps (1001 / 10 ^ 6) (js_rem x face) 0 \<and>
    \<not> within_eps (1001 / 10 ^ 6) (js_rem x face) face
      \<longrightarrow> validateInput False fid v = True) \<and>
   (denominationValues fid = Some face \<and> v \<noteq> [] \<and> parseFloat v = None \<longrightarrow>
      validateInput False fid v = False) \<and>
   validateInput False ''coin-0-2'' ''0.19999'' = False"
proof -
  have 1: "validateInput m fid [] = False" by (simp add: validateInput_def)
  have 2: "denominationValues fid = None \<longrightarrow> validateInput m fid v = False"
    by (simp add: validateInput_def)
  have 3: "denominationValues fid = Some face \<and> v \<noteq> [] \<longrightarrow>
      validateInput True fid v = (\<not> (\<exists>x. parseFloat64 v = Some x \<and> isInteger x \<and> 0 \<le> x))"
    by (cases "parseFloat64 v") (simp_all add: validateInput_def)
  have valid: "validateInput False f w = False"
    if a: "denominationValues f = Some d" "w \<noteq> []" "parseFloat w = Some y"
      "0 \<le> y" "y \<le> 10 ^ 9"
      "within_eps (999 / 10 ^ 6) (js_rem y d) 0 \<or> within_eps (999 / 10 ^ 6) (js_rem y d) d"
    for f w d y
  proof -
    note rg = denominationValues_range [OF a(1)]
    have b: "1 / 20 \<le> d" "d \<le> 100" using rg by simp_all
    have y: "y \<le> 1000000000" using a(5) by simp
    note rc = rem_close [OF a(4) y b]
    have "js_rem y d \<le> 999 / 1000000 \<or> d - js_rem y d \<le> 999 / 1000000"
      using a(6) rc(3,4) by (auto simp: within_eps_def)
    from amount_valid [OF a(4) y b this] show ?thesis
      using a(1,2,3) by (simp add: validateInput_def parseFloat64_def)
  qed
  have invalid: "validateInput False f w = True"
    if a: "denominationValues f = Some d" "w \<noteq> []" "parseFloat w = Some y"
      "0 \<le> y" "y \<le> 10 ^ 9"
      "\<not> within_eps (1001 / 10 ^ 6) (js_rem y d) 0" "\<not> within_eps (1001 / 10 ^ 6) (js_rem y d) d"
    for f w d y
  proof -
    note rg = denominationValues_range [OF a(1)]
    have b: "1 / 20 \<le> d" "d \<le> 100" using rg by simp_all
    have y: "y \<le> 1000000000" using a(5) by simp
    note rc = rem_close [OF a(4) y b]
    have "1001 / 1000000 \<le> js_rem y d" "1001 / 1000000 \<le> d - js_rem y d"
      using a(6,7) rc(3,4) by (auto simp: within_eps_def)
    from amount_invalid [OF a(4) y b this] show ?thesis
      using a(1,2,3) by (simp add: validateInput_def parseFloat64_def)
  qed
  have 5: "denominationValues fid = Some face \<and> v \<noteq> [] \<and> parseFloat v = None \<longrightarrow>
      validateInput False fid v = False"
    by (simp add: validateInput_def parseFloat64_def)
  have 6: "validateInput False ''coin-0-2'' ''0.19999'' = False"
  proof (rule valid)
    show "denominationValues ''coin-0-2'' = Some (1 / 5)" by (simp add: denominationValues_def)
    show "parseFloat ''0.19999'' = Some (19999 / 100000)" by (simp add: parse_eval)
    show "within_eps (999 / 10 ^ 6) (js_rem (19999 / 100000) (1 / 5)) 0 \<or>
          within_eps (999 / 10 ^ 6) (js_rem (19999 / 100000) (1 / 5)) (1 / 5)"
      by (simp add: within_eps_def js_rem_def floor_rat_numeral_div)
  qed simp_all
  from 1 2 3 valid invalid 5 6 show ?thesis by blast
qed

theorem C5_validation_witness:
  "validateInput True ''coin-0-2'' [] = False \<and>
   validateInput True ''wolt'' ''12.5'' = False \<and>
   validateInput True ''coin-0-2'' ''3'' = False \<and>
   validateInput False ''coin-0-2'' ''0.4'' = False \<and>
   validateInput False ''coin-0-2'' ''0.5'' = True \<and>
   validateInput False ''coin-0-2'' ''.'' = False"
proof -
  have d: "denominationValues ''coin-0-2'' = Some (1 / 5)" "denominationValues ''wolt'' = None"
    by (simp_all add: denominationValues_def)
  have p: "parseFloat ''3'' = Some 3" "parseFloat ''0.5'' = Some (1 / 2)" "parseFloat ''.'' = None"
    "parseFloat ''0.4'' = Some (2 / 5)"
    by (simp_all add: parse_eval)
  have p3: "parseFloat64 ''3'' = Some 3"
    using double_of_int [of 3] by (simp add: parseFloat64_def p)
  have i: "isInteger 3" by (simp add: isInteger_def)
  have r: "js_rem (1 / 2) (1 / 5) = 1 / 10" "js_rem (2 / 5) (1 / 5) = 0"
    by (simp_all add: js_rem_def floor_rat_numeral_div)
  show ?thesis
    using C5_validation [of True "''coin-0-2''" "''3''" "1 / 5" 3]
      C5_validation [of True "''wolt''" "''12.5''" "1 / 5" 3]
      C5_validation [of True "''coin-0-2''" "''0.5''" "1 / 5" "1 / 2"]
      C5_validation [of True "''coin-0-2''" "''0.4''" "1 / 5" "2 / 5"]
      C5_validation [of True "''coin-0-2''" "''.''" "1 / 5" "1 / 2"]
      d p p3 i r
    by (simp add: within_eps_def)
qed

text \<open>
  Claim C5 as stated fails in amount mode: \<open>-7\<close> in the field of the 5 bill has the
  remainder -2, which is within 0.001 neither of 0 nor of 5, and a lone minus sign parses to
  no number at all, yet the script marks neither of them; and 1.999 in the field of the 2
  coin is exactly 0.001 away from 2, not less, yet on doubles the difference comes out
  below the tolerance and the field is not marked.
\<close>

theorem C5_validation_counterexample:
  "\<not> validateInput False ''bill-5'' ''-7'' \<and> \<not> claimed_valid False ''bill-5'' ''-7'' \<and>
   \<not> validateInput False ''bill-5'' ''-'' \<and> \<not> claimed_valid False ''bill-5'' ''-'' \<and>
   \<not> validateInput False ''coin-2'' ''1.999'' \<and> \<not> claimed_valid False ''coin-2'' ''1.999''"
proof -
  have E: "0 < double (1 / 1000)" by (rule double_pos) simp
  have p: "parseFloat ''-7'' = Some (- 7)" "parseFloat ''-'' = None"
    "parseFloat ''1.999'' = Some (1999 / 1000)"
    by (simp_all add: parse_eval)
  have d: "denominationValues ''bill-5'' = Some 5" "denominationValues ''coin-2'' = Some 2"
    by (simp_all add: denominationValues_def)
  have r7: "js_rem (- 7) 5 = - 2"
    by (simp add: js_rem_def floor_rat_numeral_div ceiling_def)
  have r2: "js_rem (1999 / 1000) 2 = 1999 / 1000"
    by (simp add: js_rem_def floor_rat_numeral_div)
  have rd: "js_rem (4501347827556811 / 2251799813685248) 2
              = 4501347827556811 / 2251799813685248"
    by (simp add: js_rem_def floor_rat_numeral_div)
  have 1: "\<not> validateInput False ''bill-5'' ''-7''"
    using E by (simp add: validateInput_def parseFloat64_def p d double_2 isValidMultiple_def
        Let_def r7)
  have 2: "\<not> claimed_valid False ''bill-5'' ''-7''"
    by (simp add: claimed_valid_def p d r7 within_eps_def)
  have 3: "\<not> validateInput False ''bill-5'' ''-''"
    by (simp add: validateInput_def parseFloat64_def p d)
  have 4: "\<not> claimed_valid False ''bill-5'' ''-''"
    by (simp add: claimed_valid_def p d)
  have 5: "\<not> validateInput False ''coin-2'' ''1.999''"
    by (simp add: validateInput_def parseFloat64_def p d double_2 double_1999
        isValidMultiple_def Let_def rd double_gap double_epsilon)
  have 6: "\<not> claimed_valid False ''coin-2'' ''1.999''"
    by (simp add: claimed_valid_def p d r2 within_eps_def)
  from 1 2 3 4 5 6 show ?thesis by blast
qed


section \<open>Resizing the exoda list\<close>

lemma fold_existing_at:
  "fold (\<lambda>i ev. case inputs i of
                     None \<Rightarrow> ev
                   | Some v \<Rightarrow> if v \<noteq> [] then ev(i \<mapsto> v) else ev) old acc k
   = (if k \<in> set old then
        (case inputs k of None \<Rightarrow> acc k | Some v \<Rightarrow> if v \<noteq> [] then Some v else acc k)
      else acc k)"
  by (induction old arbitrary: acc) (auto split: option.splits)

lemma exoda_existing_at:
  "exoda_existing inputs old k
   = (if k \<in> set old then
        (case inputs k of None \<Rightarrow> None | Some v \<Rightarrow> if v \<noteq> [] then Some v else None)
      else None)"
  by (simp add: exoda_existing_def fold_existing_at)

lemma exoda_clear_at:
  "exoda_clear inputs old k = (if k \<in> set old then None else inputs k)"
  unfolding exoda_clear_def by (induction old arbitrary: inputs) auto

lemma exoda_fill_at:
  "exoda_fill ev new m k
   = (if k \<in> set new then Some (case ev k of None \<Rightarrow> [] | Some v \<Rightarrow> v) else m k)"
  unfolding exoda_fill_def by (induction new arbitrary: m) auto

lemma exoda_resize_at:
  "exoda_fill (exoda_existing inputs [1..<Suc n]) [1..<Suc count]
     (exoda_clear inputs [1..<Suc n]) k
   = (if 1 \<le> k \<and> k \<le> count then
        Some (if k \<le> n then (case inputs k of None \<Rightarrow> [] | Some v \<Rightarrow> v) else [])
      else if 1 \<le> k \<and> k \<le> n then None
      else inputs k)"
  by (auto simp: exoda_fill_at exoda_existing_at exoda_clear_at split: option.splits)

lemma createExodaFields_inputs:
  "exodaInputs (createExodaFields count st) k
   = (if 1 \<le> k \<and> k \<le> count then
        Some (if k \<le> currentExodaCount st
              then (case exodaInputs st k of None \<Rightarrow> [] | Some v \<Rightarrow> v) else [])
      else if 1 \<le> k \<and> k \<le> currentExodaCount st then None
      else exodaInputs st k)"
proof -
  have "exodaInputs (createExodaFields count st)
          = exoda_fill (exoda_existing (exodaInputs st) [1..<Suc (currentExodaCount st)])
              [1..<Suc count] (exoda_clear (exodaInputs st) [1..<Suc (currentExodaCount st)])"
    by (simp add: createExodaFields_def Let_def)
  then show ?thesis by (simp only: exoda_resize_at)
qed

lemma createExodaFields_descs:
  "exodaDescInputs (createExodaFields count st) k
   = (if 1 \<le> k \<and> k \<le> count then
        Some (if k \<le> currentExodaCount st
              then (case exodaDescInputs st k of None \<Rightarrow> [] | Some v \<Rightarrow> v) else [])
      else if 1 \<le> k \<and> k \<le> currentExodaCount st then None
      else exodaDescInputs st k)"
proof -
  have "exodaDescInputs (createExodaFields count st)
          = exoda_fill (exoda_existing (exodaDescInputs st) [1..<Suc (currentExodaCount st)])
              [1..<Suc count]
              (exoda_clear (exodaDescInputs st) [1..<Suc (currentExodaCount st)])"
    by (simp add: createExodaFields_def Let_def)
  then show ?thesis by (simp only: exoda_resize_at)
qed

lemma createExodaFields_count: "currentExodaCount (createExodaFields count st) = count"
  by (simp add: createExodaFields_def Let_def)

text \<open>
  Claim C9, as amended. A value, and a description, is preserved across a change of the
  count when its index is retained, that is, lies within both the old and the new count.
  Resizing from three entries to one and back to three preserves the value of entry 1 and
  leaves entries 2 and 3 empty.
\<close>

theorem C9_resize:
  "(1 \<le> i \<and> i \<le> currentExodaCount st \<and> i \<le> count \<and> exodaInputs st i = Some v \<longrightarrow>
      exodaInputs (createExodaFields count st) i = Some v) \<and>
   (1 \<le> i \<and> i \<le> currentExodaCount st \<and> i \<le> count \<and> exodaDescInputs st i = Some w \<longrightarrow>
      exodaDescInputs (createExodaFields count st) i = Some w) \<and>
   (currentExodaCount st = 3 \<and> exodaInputs st 1 = Some v1 \<longrightarrow>
      exodaInputs (createExodaFields 3 (createExodaFields 1 st)) 1 = Some v1 \<and>
      exodaInputs (createExodaFields 3 (createExodaFields 1 st)) 2 = Some [] \<and>
      exodaInputs (createExodaFields 3 (createExodaFields 1 st)) 3 = Some [])"
  by (simp add: createExodaFields_inputs createExodaFields_descs createExodaFields_count)

theorem C9_resize_witness:
  "exodaInputs (createExodaFields 2 three_entries) 2 = Some ''20'' \<and>
   exodaDescInputs (createExodaFields 2 three_entries) 2 = Some [] \<and>
   exodaInputs (createExodaFields 3 (createExodaFields 1 three_entries)) 1 = Some ''10'' \<and>
   exodaInputs (createExodaFields 3 (createExodaFields 1 three_entries)) 2 = Some [] \<and>
   exodaInputs (createExodaFields 3 (createExodaFields 1 three_entries)) 3 = Some []"
  using C9_resize [of 2 three_entries 2 "''20''" "[]" "''10''"]
  by (simp add: three_entries_def)

text \<open>
  Claim C9 as stated fails: with 10, 20 and 30 entered, going down to one entry and back
  up to three leaves entries 2 and 3 empty.
\<close>

theorem C9_resize_counterexample:
  "exodaInputs three_entries 2 = Some ''20'' \<and>
   exodaInputs (createExodaFields 3 (createExodaFields 1 three_entries)) 2 = Some [] \<and>
   exodaInputs three_entries 3 = Some ''30'' \<and>
   exodaInputs (createExodaFields 3 (createExodaFields 1 three_entries)) 3 = Some []"
  by (simp add: createExodaFields_inputs createExodaFields_count three_entries_def)

end
